theory Spec2Isabelle
  imports Complex_Main "HOL-Library.Word" "HOL-Library.Log_Nat"
begin

section \<open>The CLIP image preprocessor of lakera\_clip (preprocessor.py)\<close>

text \<open>
  The development embeds \<^verbatim>\<open>Preprocess._smart_resize\<close>, \<^verbatim>\<open>Preprocess._assert_pil\<close> and
  \<^verbatim>\<open>Preprocess.encode_image\<close>. Every exception the Python can raise is a value of the type
  \<open>error\<close>; a function that may raise returns \<open>error + 'a\<close> with \<open>Inl\<close> for the exception.

  Numbers. Samples of a decoded image are unsigned 8-bit integers (\<open>8 word\<close>). Python
  integers are \<open>int\<close>. A floating-point number is the rational it denotes, and every
  floating-point operation rounds its exact result to the format, as IEEE 754 prescribes:
  to 53 significant bits for float64 (\<^verbatim>\<open>img / 255.0\<close>, the subtraction of the mean, the
  division by the standard deviation) and to 24 for float32 (\<^verbatim>\<open>astype(np.float32)\<close>).
\<close>

subsection \<open>Errors\<close>

datatype site = Pad | Broadcast | Transpose | Reshape

datatype error =
    AssertionError
  | ZeroDivisionError
  | CvError
  | IndexError
  | ValueError site

subsection \<open>Arrays and decoded images\<close>

text \<open>
  A numpy array is its shape together with its element at every index. The element
  function is only meaningful at indices inside the shape.
\<close>

record 'a ndarray =
  shape :: "nat list"
  item :: "nat list \<Rightarrow> 'a"

text \<open>
  A decoded PIL image with 8-bit samples: its mode, its size and its samples by row,
  column and band. \<open>L\<close> has one band, \<open>LA\<close> two, \<open>RGB\<close> three, \<open>RGBA\<close> four.
\<close>

datatype mode = L | LA | RGB | RGBA

fun bands :: "mode \<Rightarrow> nat" where
  "bands L = 1"
| "bands LA = 2"
| "bands RGB = 3"
| "bands RGBA = 4"

record pil_image =
  im_mode :: mode
  im_height :: nat
  im_width :: nat
  im_load :: "nat \<Rightarrow> nat \<Rightarrow> nat \<Rightarrow> 8 word"

text \<open>What a caller can pass to \<^verbatim>\<open>encode_image\<close>: a PIL image or something else.\<close>

datatype pyobj =
    PILImage pil_image
  | PyBytes "8 word list"
  | NdArray "8 word ndarray"
  | PyNone

text \<open>
  \<^verbatim>\<open>np.array(img)\<close>: a one-band image gives a two-dimensional array (H, W), a
  multi-band image a three-dimensional one (H, W, bands).
\<close>

definition np_array :: "pil_image \<Rightarrow> 8 word ndarray" where
  "np_array img =
     (if bands (im_mode img) = 1
      then \<lparr>shape = [im_height img, im_width img],
            item = (\<lambda>idx. case idx of [i, j] \<Rightarrow> im_load img i j 0 | _ \<Rightarrow> 0)\<rparr>
      else \<lparr>shape = [im_height img, im_width img, bands (im_mode img)],
            item = (\<lambda>idx. case idx of [i, j, c] \<Rightarrow> im_load img i j c | _ \<Rightarrow> 0)\<rparr>)"

subsection \<open>Python arithmetic\<close>

text \<open>\<^verbatim>\<open>a / b\<close> on integers is true division and raises on a zero divisor.\<close>

definition py_truediv :: "int \<Rightarrow> int \<Rightarrow> error + rat" where
  "py_truediv a b = (if b = 0 then Inl ZeroDivisionError else Inr (of_int a / of_int b))"

text \<open>The built-in \<^verbatim>\<open>round(x)\<close> with one argument: nearest integer, ties to even.\<close>

definition py_round :: "rat \<Rightarrow> int" where
  "py_round x =
     (let f = \<lfloor>x\<rfloor>; d = x - of_int f
      in if d < 1 / 2 then f
         else if 1 / 2 < d then f + 1
         else if even f then f else f + 1)"

text \<open>
  A slice \<^verbatim>\<open>[start:stop]\<close> of an axis of length \<open>n\<close>: the first index taken and the
  number of indices taken. Negative bounds count from the end; bounds are clipped.
\<close>

definition py_slice :: "int \<Rightarrow> int \<Rightarrow> nat \<Rightarrow> nat \<times> nat" where
  "py_slice start stop n =
     (let s = (if start < 0 then max 0 (start + int n) else min start (int n));
          e = (if stop < 0 then max 0 (stop + int n) else min stop (int n))
      in (nat s, nat (max 0 (e - s))))"

subsection \<open>Floating point\<close>

text \<open>
  The exponent of a positive rational: the \<open>e\<close> with \<open>2 ^ e \<le> x < 2 ^ (e + 1)\<close>.
\<close>

definition floor_log2 :: "rat \<Rightarrow> int" where
  "floor_log2 x =
     (case quotient_of x of
        (n, d) \<Rightarrow>
          (let k = bitlen n - bitlen d
           in if power_int 2 k \<le> x then k else k - 1))"

text \<open>
  Rounding to \<open>p\<close> significant bits, to nearest and ties to even. The range of the
  exponent is not modelled: the rounding is that of the format for every number in its
  normal range, and every number \<^verbatim>\<open>encode_image\<close> computes is 0 or of a magnitude
  between \<open>2 ^ -10\<close> and 4.
\<close>

definition round_to :: "nat \<Rightarrow> rat \<Rightarrow> rat" where
  "round_to p x =
     (if x = 0 then 0
      else (let u = power_int 2 (floor_log2 \<bar>x\<bar> - int p + 1)
            in of_int (py_round (x / u)) * u))"

definition float64 :: "rat \<Rightarrow> rat" where
  "float64 = round_to 53"

definition float32 :: "rat \<Rightarrow> rat" where
  "float32 = round_to 24"

text \<open>Subtraction and division of float64 numbers. No divisor of the code is zero.\<close>

definition f64_sub :: "rat \<Rightarrow> rat \<Rightarrow> rat" where
  "f64_sub a b = float64 (a - b)"

definition f64_div :: "rat \<Rightarrow> rat \<Rightarrow> rat" where
  "f64_div a b = float64 (a / b)"

subsection \<open>The library calls\<close>

text \<open>
  \<^verbatim>\<open>cv.resize(img, (w, h), interpolation=cv.INTER_LINEAR)\<close> belongs to OpenCV. Its
  interpolation is a parameter \<open>interp\<close> of the model (source array, destination height,
  destination width, destination index to sample). What the model fixes is OpenCV's
  contract: an empty source or a destination size with a non-positive side is rejected
  with \<^verbatim>\<open>cv2.error\<close>; the result has the destination size and the source's channels,
  and a single channel comes back without a channel axis.
\<close>

type_synonym interpolation = "8 word ndarray \<Rightarrow> nat \<Rightarrow> nat \<Rightarrow> nat list \<Rightarrow> 8 word"

definition cv_resize :: "interpolation \<Rightarrow> 8 word ndarray \<Rightarrow> int \<times> int \<Rightarrow> error + 8 word ndarray" where
  "cv_resize interp img dsize =
     (case dsize of (dw, dh) \<Rightarrow>
        (case shape img of
           sh # sw # rest \<Rightarrow>
             if sh = 0 \<or> sw = 0 then Inl CvError
             else if dw \<le> 0 \<or> dh \<le> 0 then Inl CvError
             else Inr \<lparr>shape = (if rest = [] \<or> rest = [1] then [nat dh, nat dw]
                                else nat dh # nat dw # rest),
                       item = interp img (nat dh) (nat dw)\<rparr>
         | _ \<Rightarrow> Inl CvError))"

text \<open>
  \<^verbatim>\<open>np.pad(img, padding, constant_values=v)\<close>: one (before, after) pair per axis, none
  of them negative.
\<close>

definition in_core :: "(int \<times> int) list \<Rightarrow> nat list \<Rightarrow> nat list \<Rightarrow> bool" where
  "in_core padding shp idx =
     (length idx = length shp \<and>
      list_all (\<lambda>(p, n, i). nat (fst p) \<le> i \<and> i < nat (fst p) + n) (zip padding (zip shp idx)))"

definition np_pad :: "'a ndarray \<Rightarrow> (int \<times> int) list \<Rightarrow> 'a \<Rightarrow> error + 'a ndarray" where
  "np_pad a padding v =
     (if length padding \<noteq> length (shape a) then Inl (ValueError Pad)
      else if list_ex (\<lambda>p. fst p < 0 \<or> snd p < 0) padding then Inl (ValueError Pad)
      else Inr \<lparr>shape = map (\<lambda>(p, n). nat (fst p) + n + nat (snd p)) (zip padding (shape a)),
                item = (\<lambda>idx. if in_core padding (shape a) idx
                               then item a (map (\<lambda>(p, i). i - nat (fst p)) (zip padding idx))
                               else v)\<rparr>)"

text \<open>\<^verbatim>\<open>img[r0:r1, c0:c1]\<close>: basic slicing of the first two axes.\<close>

definition crop2 :: "'a ndarray \<Rightarrow> int \<times> int \<Rightarrow> int \<times> int \<Rightarrow> error + 'a ndarray" where
  "crop2 a rows cols =
     (case shape a of
        n0 # n1 # rest \<Rightarrow>
          (let r = py_slice (fst rows) (snd rows) n0;
               c = py_slice (fst cols) (snd cols) n1
           in Inr \<lparr>shape = snd r # snd c # rest,
                    item = (\<lambda>idx. case idx of
                                     i # j # ks \<Rightarrow> item a ((fst r + i) # (fst c + j) # ks)
                                   | _ \<Rightarrow> item a idx)\<rparr>)
      | _ \<Rightarrow> Inl IndexError)"

text \<open>\<^verbatim>\<open>np.expand_dims(img, axis=2)\<close> of a two-dimensional array.\<close>

definition np_expand_dims2 :: "'a ndarray \<Rightarrow> 'a ndarray" where
  "np_expand_dims2 a =
     \<lparr>shape = take 2 (shape a) @ 1 # drop 2 (shape a),
      item = (\<lambda>idx. item a (take 2 idx @ drop 3 idx))\<rparr>"

text \<open>\<^verbatim>\<open>np.concatenate((img,) * 3, axis=2)\<close>: three copies along the third axis.\<close>

definition np_concatenate3 :: "'a ndarray \<Rightarrow> 'a ndarray" where
  "np_concatenate3 a =
     (case shape a of
        n0 # n1 # n2 # rest \<Rightarrow>
          \<lparr>shape = n0 # n1 # (3 * n2) # rest,
           item = (\<lambda>idx. case idx of
                            i # j # c # ks \<Rightarrow> item a (i # j # (c mod n2) # ks)
                          | _ \<Rightarrow> item a idx)\<rparr>
      | _ \<Rightarrow> a)"

text \<open>
  Broadcasting of an elementwise binary operation. Shapes are aligned at their last
  axis; two lengths are compatible when they are equal or one of them is 1.
\<close>

fun broadcast_shapes :: "nat list \<Rightarrow> nat list \<Rightarrow> nat list option" where
  "broadcast_shapes [] ys = Some ys"
| "broadcast_shapes (x # xs) [] = Some (x # xs)"
| "broadcast_shapes (x # xs) (y # ys) =
     (if x = y \<or> y = 1 then map_option ((#) x) (broadcast_shapes xs ys)
      else if x = 1 then map_option ((#) y) (broadcast_shapes xs ys)
      else None)"

fun broadcast_index :: "nat list \<Rightarrow> nat list \<Rightarrow> nat list" where
  "broadcast_index (d # ds) (i # is) = (if d = 1 then 0 else i) # broadcast_index ds is"
| "broadcast_index _ _ = []"

definition np_binop :: "('a \<Rightarrow> 'b \<Rightarrow> 'c) \<Rightarrow> 'a ndarray \<Rightarrow> 'b ndarray \<Rightarrow> error + 'c ndarray" where
  "np_binop f a b =
     (case broadcast_shapes (rev (shape a)) (rev (shape b)) of
        None \<Rightarrow> Inl (ValueError Broadcast)
      | Some rs \<Rightarrow>
          Inr \<lparr>shape = rev rs,
               item = (\<lambda>idx. f (item a (rev (broadcast_index (rev (shape a)) (rev idx))))
                               (item b (rev (broadcast_index (rev (shape b)) (rev idx)))))\<rparr>)"

text \<open>\<^verbatim>\<open>np.transpose(img, (2, 0, 1))\<close>: needs exactly three axes.\<close>

definition np_transpose201 :: "'a ndarray \<Rightarrow> error + 'a ndarray" where
  "np_transpose201 a =
     (case shape a of
        [n0, n1, n2] \<Rightarrow>
          Inr \<lparr>shape = [n2, n0, n1],
               item = (\<lambda>idx. case idx of [k, i, j] \<Rightarrow> item a [i, j, k] | _ \<Rightarrow> item a idx)\<rparr>
      | _ \<Rightarrow> Inl (ValueError Transpose))"

text \<open>
  \<^verbatim>\<open>reshape\<close> keeps the row-major order of the elements and needs the same number
  of elements.
\<close>

fun ravel :: "nat list \<Rightarrow> nat list \<Rightarrow> nat" where
  "ravel (n # ns) (i # is) = i * prod_list ns + ravel ns is"
| "ravel _ _ = 0"

fun unravel :: "nat list \<Rightarrow> nat \<Rightarrow> nat list" where
  "unravel [] k = []"
| "unravel (n # ns) k = (k div prod_list ns) mod n # unravel ns (k mod prod_list ns)"

definition np_reshape :: "'a ndarray \<Rightarrow> nat list \<Rightarrow> error + 'a ndarray" where
  "np_reshape a new_shape =
     (if prod_list (shape a) \<noteq> prod_list new_shape then Inl (ValueError Reshape)
      else Inr \<lparr>shape = new_shape,
                item = (\<lambda>idx. item a (unravel (shape a) (ravel new_shape idx)))\<rparr>)"

text \<open>An elementwise operation with a scalar, such as \<^verbatim>\<open>img / 255.0\<close>.\<close>

definition np_map :: "('a \<Rightarrow> 'b) \<Rightarrow> 'a ndarray \<Rightarrow> 'b ndarray" where
  "np_map f a = \<lparr>shape = shape a, item = (\<lambda>idx. f (item a idx))\<rparr>"

subsection \<open>Class Preprocess\<close>

definition CLIP_INPUT_SIZE :: int where
  "CLIP_INPUT_SIZE = 224"

definition CROP_CENTER_PADDING :: int where
  "CROP_CENTER_PADDING = 224"

text \<open>The decimal literals of the source and the float64 numbers they denote.\<close>

definition mean_literals :: "rat list" where
  "mean_literals = [485 / 1000, 456 / 1000, 406 / 1000]"

definition std_literals :: "rat list" where
  "std_literals = [229 / 1000, 224 / 1000, 225 / 1000]"

definition mean_values :: "rat list" where
  "mean_values = map float64 mean_literals"

definition std_values :: "rat list" where
  "std_values = map float64 std_literals"

text \<open>\<^verbatim>\<open>np.array([...]).reshape((1, 1, 3))\<close>.\<close>

definition channel_stats :: "rat list \<Rightarrow> rat ndarray" where
  "channel_stats vs =
     \<lparr>shape = [1, 1, length vs],
      item = (\<lambda>idx. case idx of [i, j, c] \<Rightarrow> vs ! c | _ \<Rightarrow> 0)\<rparr>"

definition NORM_MEAN :: "rat ndarray" where
  "NORM_MEAN = channel_stats mean_values"

definition NORM_STD :: "rat ndarray" where
  "NORM_STD = channel_stats std_values"

definition resized_sq_size :: int where
  "resized_sq_size = CLIP_INPUT_SIZE + 2 * CROP_CENTER_PADDING"

text \<open>
  Lines 28 to 33 of \<^verbatim>\<open>_smart_resize\<close>: the size after the resize and before the padding,
  as (resized\_h, resized\_w).
\<close>

definition resized_size :: "int \<Rightarrow> int \<Rightarrow> error + int \<times> int" where
  "resized_size h w =
     (if h > w
      then (case py_truediv (resized_sq_size * w) h of
              Inl e \<Rightarrow> Inl e
            | Inr q \<Rightarrow> Inr (resized_sq_size, py_round q))
      else (case py_truediv (resized_sq_size * h) w of
              Inl e \<Rightarrow> Inl e
            | Inr q \<Rightarrow> Inr (py_round q, resized_sq_size)))"

text \<open>Lines 38 to 59: pad the resized array to the square.\<close>

definition pad_to_square :: "int \<Rightarrow> int \<Rightarrow> 8 word ndarray \<Rightarrow> error + 8 word ndarray" where
  "pad_to_square resized_h resized_w img =
     (let vert_residual = resized_sq_size - resized_h;
          hor_residual = resized_sq_size - resized_w;
          vert_pad = vert_residual div 2;
          hor_pad = hor_residual div 2;
          padding =
            (if length (shape img) = 3
             then [(vert_pad, vert_residual - vert_pad), (hor_pad, hor_residual - hor_pad), (0, 0)]
             else [(vert_pad, vert_residual - vert_pad), (hor_pad, hor_residual - hor_pad)])
      in np_pad img padding 0)"

definition smart_resize :: "interpolation \<Rightarrow> pil_image \<Rightarrow> error + 8 word ndarray" where
  "smart_resize interp pimg =
     (let img = np_array pimg;
          h = int (shape img ! 0);
          w = int (shape img ! 1)
      in case resized_size h w of
           Inl e \<Rightarrow> Inl e
         | Inr (resized_h, resized_w) \<Rightarrow>
             (case cv_resize interp img (resized_w, resized_h) of
                Inl e \<Rightarrow> Inl e
              | Inr img' \<Rightarrow> pad_to_square resized_h resized_w img'))"

definition assert_pil :: "pyobj \<Rightarrow> error + pil_image" where
  "assert_pil obj = (case obj of PILImage img \<Rightarrow> Inr img | _ \<Rightarrow> Inl AssertionError)"

text \<open>
  Lines 79 to 96 of \<^verbatim>\<open>encode_image\<close>: type check, resize, centre crop, division by
  255.0 and the grey-scale replication; the array just before the channel normalisation.
\<close>

definition scaled_image :: "interpolation \<Rightarrow> pyobj \<Rightarrow> error + rat ndarray" where
  "scaled_image interp obj =
     (case assert_pil obj of
        Inl e \<Rightarrow> Inl e
      | Inr pimg \<Rightarrow>
          (case smart_resize interp pimg of
             Inl e \<Rightarrow> Inl e
           | Inr img \<Rightarrow>
               (case crop2 img (CROP_CENTER_PADDING, - CROP_CENTER_PADDING)
                              (CROP_CENTER_PADDING, - CROP_CENTER_PADDING) of
                  Inl e \<Rightarrow> Inl e
                | Inr img \<Rightarrow>
                    (let img = np_map (\<lambda>p. f64_div (of_nat (unat p)) 255) img
                     in if length (shape img) = 2
                        then Inr (np_concatenate3 (np_expand_dims2 img))
                        else Inr img))))"

text \<open>Lines 98 to 105: channel normalisation, transposition, cast and reshape.\<close>

definition encode_image :: "interpolation \<Rightarrow> pyobj \<Rightarrow> error + rat ndarray" where
  "encode_image interp obj =
     (case scaled_image interp obj of
        Inl e \<Rightarrow> Inl e
      | Inr img \<Rightarrow>
          (case np_binop f64_sub img NORM_MEAN of
             Inl e \<Rightarrow> Inl e
           | Inr img \<Rightarrow>
               (case np_binop f64_div img NORM_STD of
                  Inl e \<Rightarrow> Inl e
                | Inr img \<Rightarrow>
                    (case np_transpose201 img of
                       Inl e \<Rightarrow> Inl e
                     | Inr img \<Rightarrow> np_reshape (np_map float32 img) [1, 3, 224, 224]))))"

subsection \<open>Derived notions and example inputs\<close>

text \<open>The axes of \<^verbatim>\<open>np.array(img)\<close> after height and width.\<close>

definition channel_axes :: "pil_image \<Rightarrow> nat list" where
  "channel_axes p = (if bands (im_mode p) = 1 then [] else [bands (im_mode p)])"

text \<open>\<^verbatim>\<open>isinstance(img, Image.Image)\<close>.\<close>

fun isinstance_Image :: "pyobj \<Rightarrow> bool" where
  "isinstance_Image (PILImage img) = True"
| "isinstance_Image _ = False"

text \<open>
  The resize succeeds exactly when the longer side of the image is less than 1344 times
  the shorter one: then both sides are positive and the shorter side does not round to 0.
\<close>

definition resizable :: "pil_image \<Rightarrow> bool" where
  "resizable p \<longleftrightarrow>
     int (im_height p) < 1344 * int (im_width p) \<and> int (im_width p) < 1344 * int (im_height p)"

text \<open>
  What lines 99 to 103 do to one scaled sample of channel \<open>c\<close>: subtraction of the mean
  and division by the standard deviation in float64, then the cast to float32.
\<close>

definition normalised :: "nat \<Rightarrow> rat \<Rightarrow> rat" where
  "normalised c x = float32 (f64_div (f64_sub x (mean_values ! c)) (std_values ! c))"

text \<open>A concrete interpolation for the examples: nearest neighbour.\<close>

definition nearest :: interpolation where
  "nearest src dh dw idx =
     (case shape src of
        sh # sw # _ \<Rightarrow>
          (case idx of
             i # j # ks \<Rightarrow> item src ((i * sh div dh) # (j * sw div dw) # ks)
           | _ \<Rightarrow> 0)
      | _ \<Rightarrow> 0)"

definition ramp :: "nat \<Rightarrow> nat \<Rightarrow> nat \<Rightarrow> 8 word" where
  "ramp i j c = of_nat (100 + 30 * i + 10 * j + c)"

text \<open>
  Images of one colour. The linear interpolation of \<^verbatim>\<open>cv.resize\<close> resizes such an image
  to an image of the same colour, as the nearest-neighbour interpolation of the examples
  does, so the samples of the examples are those of the code.
\<close>

definition flat_110 :: "nat \<Rightarrow> nat \<Rightarrow> nat \<Rightarrow> 8 word" where
  "flat_110 i j c = 110"

definition full_255 :: "nat \<Rightarrow> nat \<Rightarrow> nat \<Rightarrow> 8 word" where
  "full_255 i j c = 255"

definition grey_2x3 :: pil_image where
  "grey_2x3 = \<lparr>im_mode = L, im_height = 2, im_width = 3, im_load = flat_110\<rparr>"

definition white_2x3 :: pil_image where
  "white_2x3 = \<lparr>im_mode = RGB, im_height = 2, im_width = 3, im_load = full_255\<rparr>"

text \<open>
  Following the specification: the de-normalised value
  \<open>output[c] * NORM_STD[c] + NORM_MEAN[c]\<close> of an output sample, computed exactly and
  computed in float64 arithmetic.
\<close>

definition denormalised :: "nat \<Rightarrow> rat \<Rightarrow> rat" where
  "denormalised c v = v * std_values ! c + mean_values ! c"

definition denormalised_f64 :: "nat \<Rightarrow> rat \<Rightarrow> rat" where
  "denormalised_f64 c v = float64 (float64 (v * std_values ! c) + mean_values ! c)"

definition rgb_1x1344 :: pil_image where
  "rgb_1x1344 = \<lparr>im_mode = RGB, im_height = 1, im_width = 1344, im_load = ramp\<rparr>"

definition rgb_0x0 :: pil_image where
  "rgb_0x0 = \<lparr>im_mode = RGB, im_height = 0, im_width = 0, im_load = ramp\<rparr>"

definition rgb_0x5 :: pil_image where
  "rgb_0x5 = \<lparr>im_mode = RGB, im_height = 0, im_width = 5, im_load = ramp\<rparr>"

definition rgba_1x1 :: pil_image where
  "rgba_1x1 = \<lparr>im_mode = RGBA, im_height = 1, im_width = 1, im_load = ramp\<rparr>"

definition la_2x3 :: pil_image where
  "la_2x3 = \<lparr>im_mode = LA, im_height = 2, im_width = 3, im_load = ramp\<rparr>"

text \<open>A resized colour image of 447 rows and 672 columns, every sample 7.\<close>

definition strip_447 :: "8 word ndarray" where
  "strip_447 = \<lparr>shape = [447, 672, 3], item = (\<lambda>idx. 7)\<rparr>"

section \<open>Properties\<close>

subsection \<open>Rounding\<close>

lemma py_round_near: "\<bar>of_int (py_round x) - x\<bar> \<le> 1 / 2"
proof -
  have "of_int \<lfloor>x\<rfloor> \<le> x" "x < of_int \<lfloor>x\<rfloor> + 1" by linarith+
  then show ?thesis
    unfolding py_round_def Let_def by (simp add: abs_le_iff)
qed

lemma py_round_nonneg: "0 \<le> x \<Longrightarrow> 0 \<le> py_round x"
  unfolding py_round_def Let_def by simp

lemma py_round_le: "x \<le> of_int n \<Longrightarrow> py_round x \<le> n"
proof -
  assume a: "x \<le> of_int n"
  have "x < of_int \<lfloor>x\<rfloor> + 1" by linarith
  show ?thesis
  proof (cases "x = of_int n")
    case True then show ?thesis unfolding py_round_def Let_def by simp
  next
    case False
    with a have "x < of_int n" by simp
    then have "\<lfloor>x\<rfloor> < n" by (simp add: floor_less_iff)
    then show ?thesis unfolding py_round_def Let_def by simp
  qed
qed

lemma floor_half: "\<lfloor>rat_of_int k + 1 / 2\<rfloor> = k"
  by (simp add: floor_unique)

lemma py_round_half: "py_round (of_int k + 1 / 2) = (if even k then k else k + 1)"
  unfolding py_round_def Let_def by (simp add: floor_half)

lemma py_round_quotient:
  assumes "0 < b"
  shows "py_round (of_int a / of_int b) =
     (if 2 * (a mod b) < b then a div b
      else if b < 2 * (a mod b) then a div b + 1
      else if even (a div b) then a div b else a div b + 1)"
proof -
  have f: "\<lfloor>rat_of_int a / rat_of_int b\<rfloor> = a div b"
    by (rule floor_divide_of_int_eq)
  have "rat_of_int a = rat_of_int (a div b) * rat_of_int b + rat_of_int (a mod b)"
    by (metis of_int_add of_int_mult div_mult_mod_eq)
  then have d: "rat_of_int a / rat_of_int b - rat_of_int (a div b) = rat_of_int (a mod b) / rat_of_int b"
    using assms by (simp add: field_simps)
  have l: "rat_of_int (a mod b) / rat_of_int b < 1 / 2 \<longleftrightarrow> 2 * (a mod b) < b"
  proof -
    have "rat_of_int (a mod b) / rat_of_int b < 1 / 2 \<longleftrightarrow> rat_of_int (2 * (a mod b)) < rat_of_int b"
      using assms by (simp add: field_simps)
    then show ?thesis by (simp only: of_int_less_iff)
  qed
  have g: "1 / 2 < rat_of_int (a mod b) / rat_of_int b \<longleftrightarrow> b < 2 * (a mod b)"
  proof -
    have "1 / 2 < rat_of_int (a mod b) / rat_of_int b \<longleftrightarrow> rat_of_int b < rat_of_int (2 * (a mod b))"
      using assms by (simp add: field_simps)
    then show ?thesis by (simp only: of_int_less_iff)
  qed
  show ?thesis
    unfolding py_round_def Let_def f d l g by simp
qed


subsection \<open>Padding\<close>

lemma resized_sq_size_val: "resized_sq_size = 672"
  by (simp add: resized_sq_size_def CLIP_INPUT_SIZE_def CROP_CENTER_PADDING_def)

lemma np_pad_2d:
  assumes "shape a = [n0, n1]"
  shows "\<exists>p. np_pad a [(int b0, int e0), (int b1, int e1)] v = Inr p \<and>
             shape p = [b0 + n0 + e0, b1 + n1 + e1] \<and>
             (\<forall>i j. item p [i, j] =
                (if b0 \<le> i \<and> i < b0 + n0 \<and> b1 \<le> j \<and> j < b1 + n1
                 then item a [i - b0, j - b1] else v))"
  using assms by (simp add: np_pad_def in_core_def)

lemma np_pad_3d:
  assumes "shape a = [n0, n1, n2]"
  shows "\<exists>p. np_pad a [(int b0, int e0), (int b1, int e1), (0, 0)] v = Inr p \<and>
             shape p = [b0 + n0 + e0, b1 + n1 + e1, n2] \<and>
             (\<forall>i j k. k < n2 \<longrightarrow> item p [i, j, k] =
                (if b0 \<le> i \<and> i < b0 + n0 \<and> b1 \<le> j \<and> j < b1 + n1
                 then item a [i - b0, j - b1, k] else v))"
  using assms by (auto simp add: np_pad_def in_core_def)

lemma pad_to_square_2d:
  assumes "shape r = [nh, nw]" "nh \<le> 672" "nw \<le> 672"
  shows "\<exists>p. pad_to_square (int nh) (int nw) r = Inr p \<and>
             shape p = [672, 672] \<and>
             (\<forall>i j. item p [i, j] =
                (if (672 - nh) div 2 \<le> i \<and> i < (672 - nh) div 2 + nh \<and>
                    (672 - nw) div 2 \<le> j \<and> j < (672 - nw) div 2 + nw
                 then item r [i - (672 - nh) div 2, j - (672 - nw) div 2] else 0))"
proof -
  from np_pad_2d [OF assms(1), of "(672 - nh) div 2" "672 - nh - (672 - nh) div 2"
      "(672 - nw) div 2" "672 - nw - (672 - nw) div 2" 0]
  obtain p where p: "np_pad r [(int ((672 - nh) div 2), int (672 - nh - (672 - nh) div 2)),
       (int ((672 - nw) div 2), int (672 - nw - (672 - nw) div 2))] 0 = Inr p"
     "shape p = [(672 - nh) div 2 + nh + (672 - nh - (672 - nh) div 2),
                 (672 - nw) div 2 + nw + (672 - nw - (672 - nw) div 2)]"
     "\<forall>i j. item p [i, j] =
                (if (672 - nh) div 2 \<le> i \<and> i < (672 - nh) div 2 + nh \<and>
                    (672 - nw) div 2 \<le> j \<and> j < (672 - nw) div 2 + nw
                 then item r [i - (672 - nh) div 2, j - (672 - nw) div 2] else 0)"
    by blast
  have "pad_to_square (int nh) (int nw) r = Inr p"
    unfolding pad_to_square_def Let_def resized_sq_size_val
    using assms p(1) by (simp add: zdiv_int algebra_simps)
  moreover have "shape p = [672, 672]"
    using p(2) assms by simp
  ultimately show ?thesis using p(3) by blast
qed

lemma pad_to_square_3d:
  assumes "shape r = [nh, nw, c]" "nh \<le> 672" "nw \<le> 672"
  shows "\<exists>p. pad_to_square (int nh) (int nw) r = Inr p \<and>
             shape p = [672, 672, c] \<and>
             (\<forall>i j k. k < c \<longrightarrow> item p [i, j, k] =
                (if (672 - nh) div 2 \<le> i \<and> i < (672 - nh) div 2 + nh \<and>
                    (672 - nw) div 2 \<le> j \<and> j < (672 - nw) div 2 + nw
                 then item r [i - (672 - nh) div 2, j - (672 - nw) div 2, k] else 0))"
proof -
  from np_pad_3d [OF assms(1), of "(672 - nh) div 2" "672 - nh - (672 - nh) div 2"
      "(672 - nw) div 2" "672 - nw - (672 - nw) div 2" 0]
  obtain p where p: "np_pad r [(int ((672 - nh) div 2), int (672 - nh - (672 - nh) div 2)),
       (int ((672 - nw) div 2), int (672 - nw - (672 - nw) div 2)), (0, 0)] 0 = Inr p"
     "shape p = [(672 - nh) div 2 + nh + (672 - nh - (672 - nh) div 2),
                 (672 - nw) div 2 + nw + (672 - nw - (672 - nw) div 2), c]"
     "\<forall>i j k. k < c \<longrightarrow> item p [i, j, k] =
                (if (672 - nh) div 2 \<le> i \<and> i < (672 - nh) div 2 + nh \<and>
                    (672 - nw) div 2 \<le> j \<and> j < (672 - nw) div 2 + nw
                 then item r [i - (672 - nh) div 2, j - (672 - nw) div 2, k] else 0)"
    by blast
  have "pad_to_square (int nh) (int nw) r = Inr p"
    unfolding pad_to_square_def Let_def resized_sq_size_val
    using assms p(1) by (simp add: zdiv_int algebra_simps)
  moreover have "shape p = [672, 672, c]"
    using p(2) assms by simp
  ultimately show ?thesis using p(3) by blast
qed

subsection \<open>The size after the resize\<close>

lemma py_round_pos_iff:
  assumes "0 \<le> x"
  shows "1 \<le> py_round x \<longleftrightarrow> 1 / 2 < x"
proof (cases "x < 1")
  case True
  with assms have "\<lfloor>x\<rfloor> = 0" by (simp add: floor_unique)
  then show ?thesis unfolding py_round_def Let_def by auto
next
  case False
  then have "1 \<le> \<lfloor>x\<rfloor>" by (simp add: le_floor_iff)
  with False show ?thesis unfolding py_round_def Let_def by auto
qed

lemma quotient_bounds:
  assumes "0 \<le> a" "a \<le> b" "0 < (b::int)"
  shows "0 \<le> rat_of_int (672 * a) / rat_of_int b"
    and "rat_of_int (672 * a) / rat_of_int b \<le> rat_of_int 672"
  using assms by (simp_all add: divide_le_eq)

lemma resized_size_gt:
  assumes "0 \<le> w" "w < h"
  shows "resized_size h w = Inr (672, py_round (of_int (672 * w) / of_int h))"
  using assms by (simp add: resized_size_def py_truediv_def resized_sq_size_val)

lemma resized_size_le:
  assumes "h \<le> w" "0 < w"
  shows "resized_size h w = Inr (py_round (of_int (672 * h) / of_int w), 672)"
  using assms by (simp add: resized_size_def py_truediv_def resized_sq_size_val)

lemma resized_size_zero: "resized_size 0 0 = Inl ZeroDivisionError"
  by (simp add: resized_size_def py_truediv_def)

lemma short_side_range:
  assumes "0 \<le> a" "a \<le> b" "0 < (b::int)"
  shows "0 \<le> py_round (of_int (672 * a) / of_int b)"
    and "py_round (of_int (672 * a) / of_int b) \<le> 672"
    and "1 \<le> py_round (of_int (672 * a) / of_int b) \<longleftrightarrow> b < 1344 * a"
proof -
  show "0 \<le> py_round (of_int (672 * a) / of_int b)"
    by (rule py_round_nonneg) (rule quotient_bounds [OF assms])
  show "py_round (of_int (672 * a) / of_int b) \<le> 672"
    by (rule py_round_le) (rule quotient_bounds [OF assms])
  have "1 / 2 < rat_of_int (672 * a) / rat_of_int b \<longleftrightarrow> rat_of_int b < rat_of_int (1344 * a)"
    using assms by (simp add: less_divide_eq)
  also have "\<dots> \<longleftrightarrow> b < 1344 * a"
    by (simp only: of_int_less_iff)
  finally show "1 \<le> py_round (of_int (672 * a) / of_int b) \<longleftrightarrow> b < 1344 * a"
    using py_round_pos_iff [OF quotient_bounds(1) [OF assms]] by simp
qed

lemma shape_np_array: "shape (np_array p) = im_height p # im_width p # channel_axes p"
  by (simp add: np_array_def channel_axes_def)

lemma bands_cases: "bands m = 1 \<or> bands m = 2 \<or> bands m = 3 \<or> bands m = 4"
  by (cases m) simp_all

lemma channel_axes_not_one: "channel_axes p \<noteq> [1]"
  by (simp add: channel_axes_def)

lemma cv_resize_np_array:
  "cv_resize interp (np_array p) (rw, rh) =
     (if im_height p = 0 \<or> im_width p = 0 \<or> rw \<le> 0 \<or> rh \<le> 0 then Inl CvError
      else Inr \<lparr>shape = nat rh # nat rw # channel_axes p,
                item = interp (np_array p) (nat rh) (nat rw)\<rparr>)"
  by (auto simp add: cv_resize_def shape_np_array channel_axes_def)

lemma smart_resize_unfold:
  "smart_resize interp p =
     (case resized_size (int (im_height p)) (int (im_width p)) of
        Inl e \<Rightarrow> Inl e
      | Inr (rh, rw) \<Rightarrow>
          (case cv_resize interp (np_array p) (rw, rh) of
             Inl e \<Rightarrow> Inl e
           | Inr img' \<Rightarrow> pad_to_square rh rw img'))"
  by (simp add: smart_resize_def Let_def shape_np_array)

text \<open>The size after the resize, for a height and a width of which not both are zero.\<close>

lemma resized_size_total:
  assumes "0 \<le> h" "0 \<le> w" "h \<noteq> 0 \<or> w \<noteq> 0"
  shows "\<exists>rh rw. resized_size h w = Inr (rh, rw) \<and> 0 \<le> rh \<and> rh \<le> 672 \<and> 0 \<le> rw \<and> rw \<le> 672 \<and>
           (1 \<le> rh \<and> 1 \<le> rw \<longleftrightarrow> h < 1344 * w \<and> w < 1344 * h)"
proof (cases "w < h")
  case True
  with assms have b: "0 \<le> w" "w \<le> h" "0 < h" by simp_all
  show ?thesis
    using resized_size_gt [OF assms(2) True] short_side_range [OF b] True assms
    by auto
next
  case False
  with assms have b: "0 \<le> h" "h \<le> w" "0 < w" by auto
  show ?thesis
    using resized_size_le [OF b(2) b(3)] short_side_range [OF b] False assms
    by auto
qed

subsection \<open>Normalisation, transposition and reshape\<close>

lemma unravel_ravel_tensor:
  assumes "c < 3" "i < 224" "j < 224"
  shows "unravel [3, 224, 224] (ravel [1, 3, 224, 224] [0, c, i, j]) = [c, i, j]"
proof -
  have r: "i * 224 + j < 50176" using assms by simp
  have "(c * 50176 + (i * 224 + j)) div 50176 = c" using r by simp
  moreover have "(c * 50176 + (i * 224 + j)) mod 50176 = i * 224 + j" using r by simp
  moreover have "(i * 224 + j) div 224 = i" using assms by simp
  moreover have "(i * 224 + j) mod 224 = j" using assms by simp
  ultimately show ?thesis using assms by simp
qed

lemma normalise_rgb:
  assumes "shape s = [224, 224, 3]"
  shows "\<exists>n. np_binop f64_sub s NORM_MEAN = Inr n \<and> shape n = [224, 224, 3] \<and>
           (\<forall>i j c. item n [i, j, c] = f64_sub (item s [i, j, c]) (mean_values ! c))"
  using assms
  by (simp add: np_binop_def NORM_MEAN_def channel_stats_def mean_values_def mean_literals_def)

lemma divide_rgb:
  assumes "shape s = [224, 224, 3]"
  shows "\<exists>n. np_binop f64_div s NORM_STD = Inr n \<and> shape n = [224, 224, 3] \<and>
           (\<forall>i j c. item n [i, j, c] = f64_div (item s [i, j, c]) (std_values ! c))"
  using assms
  by (simp add: np_binop_def NORM_STD_def channel_stats_def std_values_def std_literals_def)

lemma normalise_other:
  assumes "shape s = [224, 224, c]" "c \<noteq> 3" "c \<noteq> 1"
  shows "np_binop f64_sub s NORM_MEAN = Inl (ValueError Broadcast)"
  using assms
  by (simp add: np_binop_def NORM_MEAN_def channel_stats_def mean_values_def mean_literals_def)

lemma encode_image_of_scaled:
  assumes "scaled_image interp obj = Inr s" "shape s = [224, 224, 3]"
  shows "\<exists>out. encode_image interp obj = Inr out \<and> shape out = [1, 3, 224, 224] \<and>
           (\<forall>c i j. c < 3 \<longrightarrow> i < 224 \<longrightarrow> j < 224 \<longrightarrow>
              item out [0, c, i, j] =
                float32 (f64_div (f64_sub (item s [i, j, c]) (mean_values ! c)) (std_values ! c)))"
proof -
  obtain n where n: "np_binop f64_sub s NORM_MEAN = Inr n" "shape n = [224, 224, 3]"
      "\<forall>i j c. item n [i, j, c] = f64_sub (item s [i, j, c]) (mean_values ! c)"
    using normalise_rgb [OF assms(2)] by blast
  obtain d where d: "np_binop f64_div n NORM_STD = Inr d" "shape d = [224, 224, 3]"
      "\<forall>i j c. item d [i, j, c] = f64_div (item n [i, j, c]) (std_values ! c)"
    using divide_rgb [OF n(2)] by blast
  define t where "t = \<lparr>shape = [3, 224, 224],
      item = (\<lambda>idx. case idx of [k, i, j] \<Rightarrow> item d [i, j, k] | _ \<Rightarrow> item d idx)\<rparr>"
  have t: "np_transpose201 d = Inr t"
    using d(2) by (simp add: np_transpose201_def t_def)
  define out where "out = \<lparr>shape = [1, 3, 224, 224],
      item = (\<lambda>idx. float32 (item t (unravel (shape t) (ravel [1, 3, 224, 224] idx))))\<rparr>"
  have r: "np_reshape (np_map float32 t) [1, 3, 224, 224] = Inr out"
    by (simp add: np_reshape_def np_map_def t_def out_def)
  have e: "encode_image interp obj = Inr out"
    using r by (simp add: encode_image_def assms(1) n(1) d(1) t)
  have "item out [0, c, i, j] =
          float32 (f64_div (f64_sub (item s [i, j, c]) (mean_values ! c)) (std_values ! c))"
    if "c < 3" "i < 224" "j < 224" for c i j
  proof -
    have "item out [0, c, i, j] = float32 (item t [c, i, j])"
      using unravel_ravel_tensor [OF that] by (simp add: out_def t_def)
    also have "item t [c, i, j] = item d [i, j, c]" by (simp add: t_def)
    finally show ?thesis using d(3) n(3) by simp
  qed
  moreover have "shape out = [1, 3, 224, 224]" by (simp add: out_def)
  ultimately show ?thesis using e by blast
qed

lemma encode_image_bad_channels:
  assumes "scaled_image interp obj = Inr s" "shape s = [224, 224, c]" "c \<noteq> 3" "c \<noteq> 1"
  shows "encode_image interp obj = Inl (ValueError Broadcast)"
  by (simp add: encode_image_def assms(1) normalise_other [OF assms(2-4)])

subsection \<open>Resize, crop and scaling\<close>

lemma smart_resize_zero_size:
  assumes "im_height p = 0" "im_width p = 0"
  shows "smart_resize interp p = Inl ZeroDivisionError"
  by (simp add: smart_resize_unfold assms resized_size_zero)

lemma smart_resize_cv_error:
  assumes "im_height p \<noteq> 0 \<or> im_width p \<noteq> 0"
    and "\<not> (int (im_height p) < 1344 * int (im_width p) \<and> int (im_width p) < 1344 * int (im_height p))"
  shows "smart_resize interp p = Inl CvError"
proof -
  obtain rh rw where r: "resized_size (int (im_height p)) (int (im_width p)) = Inr (rh, rw)"
      "1 \<le> rh \<and> 1 \<le> rw \<longleftrightarrow>
         int (im_height p) < 1344 * int (im_width p) \<and> int (im_width p) < 1344 * int (im_height p)"
    using resized_size_total [of "int (im_height p)" "int (im_width p)"] assms(1) by auto
  with assms(2) have "rw \<le> 0 \<or> rh \<le> 0" by auto
  then show ?thesis
    by (auto simp add: smart_resize_unfold r(1) cv_resize_np_array)
qed

lemma smart_resize_ok:
  assumes "int (im_height p) < 1344 * int (im_width p)"
    and "int (im_width p) < 1344 * int (im_height p)"
  shows "\<exists>rh rw a. resized_size (int (im_height p)) (int (im_width p)) = Inr (int rh, int rw) \<and>
           1 \<le> rh \<and> rh \<le> 672 \<and> 1 \<le> rw \<and> rw \<le> 672 \<and>
           pad_to_square (int rh) (int rw)
             \<lparr>shape = rh # rw # channel_axes p, item = interp (np_array p) rh rw\<rparr> = Inr a \<and>
           smart_resize interp p = Inr a \<and> shape a = 672 # 672 # channel_axes p"
proof -
  from assms have nz: "im_height p \<noteq> 0" "im_width p \<noteq> 0" by auto
  obtain rh rw where r: "resized_size (int (im_height p)) (int (im_width p)) = Inr (rh, rw)"
      "rh \<le> 672" "rw \<le> 672" "1 \<le> rh" "1 \<le> rw"
    using resized_size_total [of "int (im_height p)" "int (im_width p)"] assms nz by auto
  define nh nw where "nh = nat rh" and "nw = nat rw"
  have n: "rh = int nh" "rw = int nw" "1 \<le> nh" "nh \<le> 672" "1 \<le> nw" "nw \<le> 672"
    using r by (simp_all add: nh_def nw_def)
  define img where "img = \<lparr>shape = nh # nw # channel_axes p, item = interp (np_array p) nh nw\<rparr>"
  have cv: "cv_resize interp (np_array p) (rw, rh) = Inr img"
    using nz r by (simp add: cv_resize_np_array img_def nh_def nw_def)
  have sm: "smart_resize interp p = pad_to_square (int nh) (int nw) img"
    by (simp add: smart_resize_unfold r(1) cv n(1,2) [symmetric])
  have "\<exists>a. pad_to_square (int nh) (int nw) img = Inr a \<and> shape a = 672 # 672 # channel_axes p"
  proof (cases "bands (im_mode p) = 1")
    case True
    then have "shape img = [nh, nw]" by (simp add: img_def channel_axes_def)
    from pad_to_square_2d [OF this n(4) n(6)] True show ?thesis
      by (auto simp add: channel_axes_def)
  next
    case False
    then have "shape img = [nh, nw, bands (im_mode p)]" by (simp add: img_def channel_axes_def)
    from pad_to_square_3d [OF this n(4) n(6)] False show ?thesis
      by (auto simp add: channel_axes_def)
  qed
  then obtain a where a: "pad_to_square (int nh) (int nw) img = Inr a"
      "shape a = 672 # 672 # channel_axes p" by blast
  show ?thesis
    using r(1) n a sm unfolding img_def by auto
qed

lemma py_slice_center: "py_slice CROP_CENTER_PADDING (- CROP_CENTER_PADDING) 672 = (224, 224)"
  by (simp add: py_slice_def CROP_CENTER_PADDING_def)

lemma crop_center:
  assumes "shape a = 672 # 672 # rest"
  shows "crop2 a (CROP_CENTER_PADDING, - CROP_CENTER_PADDING)
                 (CROP_CENTER_PADDING, - CROP_CENTER_PADDING) =
         Inr \<lparr>shape = 224 # 224 # rest,
              item = (\<lambda>idx. case idx of i # j # ks \<Rightarrow> item a ((224 + i) # (224 + j) # ks)
                                       | _ \<Rightarrow> item a idx)\<rparr>"
  using assms by (simp add: crop2_def py_slice_center Let_def cong: list.case_cong)

lemma scaled_image_grey:
  assumes "smart_resize interp p = Inr a" "shape a = [672, 672]"
  shows "\<exists>s. scaled_image interp (PILImage p) = Inr s \<and> shape s = [224, 224, 3] \<and>
           (\<forall>i j c. item s [i, j, c] = f64_div (of_nat (unat (item a [224 + i, 224 + j]))) 255)"
  using assms
  by (simp add: scaled_image_def assert_pil_def crop_center np_map_def
      np_expand_dims2_def np_concatenate3_def Let_def)

lemma scaled_image_colour:
  assumes "smart_resize interp p = Inr a" "shape a = [672, 672, c]"
  shows "\<exists>s. scaled_image interp (PILImage p) = Inr s \<and> shape s = [224, 224, c] \<and>
           (\<forall>i j k. item s [i, j, k] = f64_div (of_nat (unat (item a [224 + i, 224 + j, k]))) 255)"
  using assms
  by (simp add: scaled_image_def assert_pil_def crop_center np_map_def Let_def)

lemma scaled_image_error:
  assumes "smart_resize interp p = Inl e"
  shows "scaled_image interp (PILImage p) = Inl e" "encode_image interp (PILImage p) = Inl e"
  using assms by (simp_all add: scaled_image_def encode_image_def assert_pil_def)

subsection \<open>The whole of encode\_image\<close>

lemma resizable_nonzero: "resizable p \<Longrightarrow> im_height p \<noteq> 0 \<and> im_width p \<noteq> 0"
  by (auto simp add: resizable_def)

lemma smart_resize_cases:
  "smart_resize interp p =
     (if im_height p = 0 \<and> im_width p = 0 then Inl ZeroDivisionError
      else if resizable p then smart_resize interp p
      else Inl CvError)"
  using smart_resize_zero_size [of p interp] smart_resize_cv_error [of p interp]
  by (auto simp add: resizable_def)

lemma smart_resize_shape:
  assumes "resizable p"
  shows "\<exists>a. smart_resize interp p = Inr a \<and> shape a = 672 # 672 # channel_axes p"
  using smart_resize_ok [of p interp] assms unfolding resizable_def by blast

lemma smart_resize_Inr_resizable:
  assumes "smart_resize interp p = Inr a"
  shows "resizable p"
proof (rule ccontr)
  assume "\<not> resizable p"
  then have "smart_resize interp p = Inl ZeroDivisionError \<or> smart_resize interp p = Inl CvError"
    using smart_resize_cases [of interp p] by (auto split: if_splits)
  with assms show False by auto
qed

lemma encode_image_grey_ok:
  assumes "bands (im_mode p) = 1" "resizable p"
  shows "\<exists>a s out. smart_resize interp p = Inr a \<and> shape a = [672, 672] \<and>
           scaled_image interp (PILImage p) = Inr s \<and> shape s = [224, 224, 3] \<and>
           (\<forall>i j c. item s [i, j, c] = f64_div (of_nat (unat (item a [224 + i, 224 + j]))) 255) \<and>
           encode_image interp (PILImage p) = Inr out \<and> shape out = [1, 3, 224, 224] \<and>
           (\<forall>c i j. c < 3 \<longrightarrow> i < 224 \<longrightarrow> j < 224 \<longrightarrow>
              item out [0, c, i, j] =
                float32 (f64_div (f64_sub (item s [i, j, c]) (mean_values ! c)) (std_values ! c)))"
proof -
  obtain a where a: "smart_resize interp p = Inr a" "shape a = [672, 672]"
    using smart_resize_shape [OF assms(2), of interp] assms(1) by (auto simp add: channel_axes_def)
  obtain s where s: "scaled_image interp (PILImage p) = Inr s" "shape s = [224, 224, 3]"
      "\<forall>i j c. item s [i, j, c] = f64_div (of_nat (unat (item a [224 + i, 224 + j]))) 255"
    using scaled_image_grey [OF a] by blast
  from encode_image_of_scaled [OF s(1) s(2)] a s show ?thesis by blast
qed

lemma encode_image_rgb_ok:
  assumes "bands (im_mode p) = 3" "resizable p"
  shows "\<exists>a s out. smart_resize interp p = Inr a \<and> shape a = [672, 672, 3] \<and>
           scaled_image interp (PILImage p) = Inr s \<and> shape s = [224, 224, 3] \<and>
           (\<forall>i j c. item s [i, j, c] = f64_div (of_nat (unat (item a [224 + i, 224 + j, c]))) 255) \<and>
           encode_image interp (PILImage p) = Inr out \<and> shape out = [1, 3, 224, 224] \<and>
           (\<forall>c i j. c < 3 \<longrightarrow> i < 224 \<longrightarrow> j < 224 \<longrightarrow>
              item out [0, c, i, j] =
                float32 (f64_div (f64_sub (item s [i, j, c]) (mean_values ! c)) (std_values ! c)))"
proof -
  obtain a where a: "smart_resize interp p = Inr a" "shape a = [672, 672, 3]"
    using smart_resize_shape [OF assms(2), of interp] assms(1) by (auto simp add: channel_axes_def)
  obtain s where s: "scaled_image interp (PILImage p) = Inr s" "shape s = [224, 224, 3]"
      "\<forall>i j c. item s [i, j, c] = f64_div (of_nat (unat (item a [224 + i, 224 + j, c]))) 255"
    using scaled_image_colour [OF a] by blast
  from encode_image_of_scaled [OF s(1) s(2)] a s show ?thesis by blast
qed

lemma encode_image_other_bands:
  assumes "bands (im_mode p) \<noteq> 1" "bands (im_mode p) \<noteq> 3" "resizable p"
  shows "\<exists>s. scaled_image interp (PILImage p) = Inr s \<and>
           shape s = [224, 224, bands (im_mode p)] \<and>
           np_binop f64_sub s NORM_MEAN = Inl (ValueError Broadcast) \<and>
           encode_image interp (PILImage p) = Inl (ValueError Broadcast)"
proof -
  obtain a where a: "smart_resize interp p = Inr a" "shape a = [672, 672, bands (im_mode p)]"
    using smart_resize_shape [OF assms(3), of interp] assms(1) by (auto simp add: channel_axes_def)
  obtain s where s: "scaled_image interp (PILImage p) = Inr s" "shape s = [224, 224, bands (im_mode p)]"
    using scaled_image_colour [OF a] by blast
  from normalise_other [OF s(2) assms(2) assms(1)]
    encode_image_bad_channels [OF s(1) s(2) assms(2) assms(1)] s
  show ?thesis by blast
qed

lemma encode_image_Inr_D:
  assumes "encode_image interp (PILImage p) = Inr out"
  shows "resizable p" "bands (im_mode p) = 1 \<or> bands (im_mode p) = 3"
proof -
  show r: "resizable p"
  proof (cases "smart_resize interp p")
    case (Inl e)
    from scaled_image_error(2) [OF this] assms show ?thesis by simp
  next
    case (Inr a)
    then show ?thesis by (rule smart_resize_Inr_resizable)
  qed
  show "bands (im_mode p) = 1 \<or> bands (im_mode p) = 3"
  proof (rule ccontr)
    assume "\<not> ?thesis"
    then have "bands (im_mode p) \<noteq> 1" "bands (im_mode p) \<noteq> 3" by auto
    from encode_image_other_bands [OF this r, of interp] assms show False by auto
  qed
qed

lemma encode_image_shape:
  assumes "bands (im_mode p) = 1 \<or> bands (im_mode p) = 3" "resizable p"
  shows "\<exists>out. encode_image interp (PILImage p) = Inr out \<and> shape out = [1, 3, 224, 224]"
  using assms encode_image_grey_ok [of p interp] encode_image_rgb_ok [of p interp] by blast

subsection \<open>Floating-point rounding\<close>

lemma bitlen_power_int:
  assumes "0 < n"
  shows "power_int 2 (bitlen n - 1) \<le> rat_of_int n" "rat_of_int n < power_int 2 (bitlen n)"
proof -
  from bitlen_bounds [OF assms] have b: "2 ^ nat (bitlen n - 1) \<le> n" "n < 2 ^ nat (bitlen n)"
    by simp_all
  have p: "1 \<le> bitlen n" using assms by (simp add: bitlen_alt_def)
  have "rat_of_int (2 ^ nat (bitlen n - 1)) \<le> rat_of_int n"
    using b(1) by (simp only: of_int_le_iff)
  then show "power_int 2 (bitlen n - 1) \<le> rat_of_int n"
    using p by (simp add: power_int_def)
  have "rat_of_int n < rat_of_int (2 ^ nat (bitlen n))"
    using b(2) by (simp only: of_int_less_iff)
  then show "rat_of_int n < power_int 2 (bitlen n)"
    using p by (simp add: power_int_def)
qed

lemma floor_log2_bounds:
  assumes "0 < x"
  shows "power_int 2 (floor_log2 x) \<le> x" "x < power_int 2 (floor_log2 x + 1)"
proof -
  obtain n d where q: "quotient_of x = (n, d)" by (cases "quotient_of x")
  have d: "0 < d" using q by (rule quotient_of_denom_pos)
  have x: "x = rat_of_int n / rat_of_int d" using q by (rule quotient_of_div)
  have n: "0 < n" using assms d unfolding x by (simp add: zero_less_divide_iff)
  define k where "k = bitlen n - bitlen d"
  note bn = bitlen_power_int [OF n] and bd = bitlen_power_int [OF d]
  have two: "(2::rat) \<noteq> 0 \<or> a \<noteq> b" for a b :: int by simp
  have lo: "power_int 2 (k - 1) \<le> x"
  proof -
    have "power_int (2::rat) (k - 1) = power_int 2 (bitlen n - 1) / power_int 2 (bitlen d)"
      unfolding k_def using power_int_diff [of "2::rat" "bitlen n - 1" "bitlen d"] by (simp add: algebra_simps)
    also have "\<dots> \<le> rat_of_int n / rat_of_int d"
      using bn(1) bd(2) d n by (intro frac_le) simp_all
    finally show ?thesis unfolding x .
  qed
  have hi: "x < power_int 2 (k + 1)"
  proof -
    have "rat_of_int n / rat_of_int d < power_int 2 (bitlen n) / power_int 2 (bitlen d - 1)"
      using bn(2) bd(1) d n by (intro frac_less) simp_all
    also have "\<dots> = power_int (2::rat) (k + 1)"
      unfolding k_def using power_int_diff [of "2::rat" "bitlen n" "bitlen d - 1"] by (simp add: algebra_simps)
    finally show ?thesis unfolding x .
  qed
  have f: "floor_log2 x = (if power_int 2 k \<le> x then k else k - 1)"
    by (simp add: floor_log2_def q k_def Let_def)
  show "power_int 2 (floor_log2 x) \<le> x" using lo by (simp add: f)
  show "x < power_int 2 (floor_log2 x + 1)" using hi by (auto simp add: f)
qed

lemma floor_log2_mono:
  assumes "0 < x" "x \<le> y"
  shows "floor_log2 x \<le> floor_log2 y"
proof (rule ccontr)
  assume "\<not> floor_log2 x \<le> floor_log2 y"
  then have "floor_log2 y + 1 \<le> floor_log2 x" by simp
  then have "power_int (2::rat) (floor_log2 y + 1) \<le> power_int 2 (floor_log2 x)"
    by (intro power_int_increasing) simp_all
  also have "\<dots> \<le> x" using assms(1) by (rule floor_log2_bounds(1))
  also have "x \<le> y" by fact
  also have "y < power_int 2 (floor_log2 y + 1)"
    using assms by (intro floor_log2_bounds(2)) simp
  finally show False by simp
qed

lemma py_round_mono:
  assumes "x \<le> y"
  shows "py_round x \<le> py_round y"
proof (rule ccontr)
  assume "\<not> py_round x \<le> py_round y"
  then have "py_round y + 1 \<le> py_round x" by simp
  then have "rat_of_int (py_round y) + 1 \<le> rat_of_int (py_round x)"
    by (metis of_int_le_iff of_int_add of_int_1)
  moreover have "rat_of_int (py_round x) \<le> x + 1 / 2"
    using py_round_near [of x] by linarith
  moreover have "y - 1 / 2 \<le> rat_of_int (py_round y)"
    using py_round_near [of y] by linarith
  ultimately have "y \<le> x" by linarith
  with assms have "x = y" by simp
  with \<open>\<not> py_round x \<le> py_round y\<close> show False by simp
qed

lemma py_round_of_int: "py_round (of_int k) = k"
  by (simp add: py_round_def)

lemma py_round_minus: "py_round (- x) = - py_round x"
proof (cases "x = of_int \<lfloor>x\<rfloor>")
  case True
  then obtain k where "x = of_int k" ..
  then have "py_round x = k" "py_round (- x) = - k"
    using py_round_of_int [of k] py_round_of_int [of "- k"] by simp_all
  then show ?thesis by simp
next
  case False
  have b: "of_int \<lfloor>x\<rfloor> \<le> x" "x < of_int \<lfloor>x\<rfloor> + 1" by linarith+
  from b(1) False have lt: "of_int \<lfloor>x\<rfloor> < x" by (auto simp add: less_le)
  have f: "\<lfloor>- x\<rfloor> = - \<lfloor>x\<rfloor> - 1"
    using lt b(2) by (intro floor_unique) simp_all
  show ?thesis
    unfolding py_round_def Let_def f using lt b(2) by auto
qed

lemma round_to_nonneg:
  assumes "0 \<le> x"
  shows "0 \<le> round_to p x"
proof -
  have "0 \<le> py_round (x / power_int 2 (floor_log2 \<bar>x\<bar> - int p + 1))"
    using assms by (intro py_round_nonneg) simp
  then show ?thesis by (simp add: round_to_def Let_def)
qed

lemma round_to_minus: "round_to p (- x) = - round_to p x"
  by (simp add: round_to_def Let_def py_round_minus)

lemma round_to_nonpos:
  assumes "x \<le> 0"
  shows "round_to p x \<le> 0"
  using round_to_nonneg [of "- x" p] assms by (simp add: round_to_minus)

lemma round_to_binade:
  assumes "0 < x" "0 < p"
  shows "power_int 2 (floor_log2 x) \<le> round_to p x"
    and "round_to p x \<le> power_int 2 (floor_log2 x + 1)"
proof -
  define e where "e = floor_log2 x"
  define u :: rat where "u = power_int 2 (e - int p + 1)"
  have u: "0 < u" by (simp add: u_def)
  have r: "round_to p x = of_int (py_round (x / u)) * u"
    using assms(1) by (simp add: round_to_def Let_def u_def e_def)
  have lo: "power_int 2 e = rat_of_int (2 ^ (p - 1)) * u"
  proof -
    have "power_int (2::rat) e = power_int 2 (int (p - 1) + (e - int p + 1))"
      using assms(2) by (simp add: of_nat_diff)
    also have "\<dots> = power_int 2 (int (p - 1)) * u"
      unfolding u_def by (rule power_int_add) simp
    finally show ?thesis by (simp add: power_int_def)
  qed
  have hi: "power_int 2 (e + 1) = rat_of_int (2 ^ p) * u"
  proof -
    have "power_int (2::rat) (e + 1) = power_int 2 (int p + (e - int p + 1))"
      by simp
    also have "\<dots> = power_int 2 (int p) * u"
      unfolding u_def by (rule power_int_add) simp
    finally show ?thesis by (simp add: power_int_def)
  qed
  have "rat_of_int (2 ^ (p - 1)) \<le> x / u"
    using floor_log2_bounds(1) [OF assms(1)] u unfolding e_def [symmetric] lo
    by (simp add: le_divide_eq)
  from py_round_mono [OF this] have "2 ^ (p - 1) \<le> py_round (x / u)"
    by (simp only: py_round_of_int)
  then have "rat_of_int (2 ^ (p - 1)) \<le> rat_of_int (py_round (x / u))"
    by (simp only: of_int_le_iff)
  then show "power_int 2 (floor_log2 x) \<le> round_to p x"
    unfolding e_def [symmetric] lo r using u by (intro mult_right_mono) simp_all
  have "x / u \<le> rat_of_int (2 ^ p)"
    using floor_log2_bounds(2) [OF assms(1)] u unfolding e_def [symmetric] hi
    by (simp add: divide_le_eq)
  from py_round_mono [OF this] have "py_round (x / u) \<le> 2 ^ p"
    by (simp only: py_round_of_int)
  then have "rat_of_int (py_round (x / u)) \<le> rat_of_int (2 ^ p)"
    by (simp only: of_int_le_iff)
  then show "round_to p x \<le> power_int 2 (floor_log2 x + 1)"
    unfolding e_def [symmetric] hi r using u by (intro mult_right_mono) simp_all
qed

lemma round_to_mono_pos:
  assumes "0 < x" "x \<le> y" "0 < p"
  shows "round_to p x \<le> round_to p y"
proof (cases "floor_log2 x = floor_log2 y")
  case True
  define u :: rat where "u = power_int 2 (floor_log2 x - int p + 1)"
  have u: "0 < u" by (simp add: u_def)
  have "x / u \<le> y / u" using assms(2) u by (simp add: divide_right_mono)
  from py_round_mono [OF this]
  have "rat_of_int (py_round (x / u)) \<le> rat_of_int (py_round (y / u))"
    by (simp only: of_int_le_iff)
  then have "rat_of_int (py_round (x / u)) * u \<le> rat_of_int (py_round (y / u)) * u"
    using u by (intro mult_right_mono) simp_all
  then show ?thesis
    using assms True by (simp add: round_to_def Let_def u_def)
next
  case False
  with floor_log2_mono [OF assms(1,2)] have "floor_log2 x + 1 \<le> floor_log2 y" by simp
  then have "power_int (2::rat) (floor_log2 x + 1) \<le> power_int 2 (floor_log2 y)"
    by (intro power_int_increasing) simp_all
  moreover have "0 < y" using assms by simp
  ultimately show ?thesis
    using round_to_binade(2) [OF assms(1,3)] round_to_binade(1) [OF \<open>0 < y\<close> assms(3)]
    by linarith
qed

lemma round_to_mono:
  assumes "x \<le> y" "0 < p"
  shows "round_to p x \<le> round_to p y"
proof -
  consider "0 < x" | "x \<le> 0" "0 \<le> y" | "y < 0" by linarith
  then show ?thesis
  proof cases
    case 1
    then show ?thesis using assms by (intro round_to_mono_pos)
  next
    case 2
    then show ?thesis
      using round_to_nonpos [of x p] round_to_nonneg [of y p] by linarith
  next
    case 3
    then have "0 < - y" "- y \<le> - x" using assms by simp_all
    from round_to_mono_pos [OF this assms(2)] show ?thesis
      by (simp add: round_to_minus)
  qed
qed

lemma round_to_error:
  "\<bar>round_to p x - x\<bar> \<le> \<bar>x\<bar> * power_int 2 (- int p)"
proof (cases "x = 0")
  case True
  then show ?thesis by (simp add: round_to_def)
next
  case False
  define e where "e = floor_log2 \<bar>x\<bar>"
  define u :: rat where "u = power_int 2 (e - int p + 1)"
  have u: "0 < u" by (simp add: u_def)
  have r: "round_to p x = of_int (py_round (x / u)) * u"
    using False by (simp add: round_to_def Let_def u_def e_def)
  have "round_to p x - x = (rat_of_int (py_round (x / u)) - x / u) * u"
    using u by (simp add: r field_simps)
  then have "\<bar>round_to p x - x\<bar> = \<bar>rat_of_int (py_round (x / u)) - x / u\<bar> * \<bar>u\<bar>"
    by (simp only: abs_mult)
  also have "\<dots> = \<bar>rat_of_int (py_round (x / u)) - x / u\<bar> * u"
    using u by simp
  also have "\<dots> \<le> 1 / 2 * u"
    using py_round_near [of "x / u"] u by (intro mult_right_mono) simp_all
  also have "1 / 2 * u = power_int 2 e * power_int 2 (- int p)"
  proof -
    have "u = power_int 2 (e + (- int p) + 1)" by (simp add: u_def algebra_simps)
    also have "\<dots> = power_int 2 (e + (- int p)) * 2"
      by (subst power_int_add) simp_all
    also have "power_int (2::rat) (e + (- int p)) = power_int 2 e * power_int 2 (- int p)"
      by (rule power_int_add) simp
    finally show ?thesis by simp
  qed
  also have "\<dots> \<le> \<bar>x\<bar> * power_int 2 (- int p)"
    using floor_log2_bounds(1) [of "\<bar>x\<bar>"] False unfolding e_def
    by (intro mult_right_mono) simp_all
  finally show ?thesis .
qed

subsection \<open>Values of the samples\<close>

lemma mean_values_eval:
  "mean_values = [4368491638549381 / 9007199254740992, 8214565720323785 / 18014398509481984,
                  3656922897424843 / 9007199254740992]"
  by code_simp

lemma std_values_eval:
  "std_values = [8250594517342749 / 36028797018963968, 8070450532247929 / 36028797018963968,
                 8106479329266893 / 36028797018963968]"
  by code_simp

lemma channel_cases: "c < 3 \<Longrightarrow> c = 0 \<or> c = 1 \<or> c = (2::nat)"
  by auto

lemma mean_values_range: "c < 3 \<Longrightarrow> 0 < mean_values ! c \<and> mean_values ! c < 1"
  by (drule channel_cases) (auto simp add: mean_values_eval)

lemma std_values_range: "c < 3 \<Longrightarrow> 1 / 5 \<le> std_values ! c \<and> std_values ! c \<le> 1 / 4"
  by (drule channel_cases) (auto simp add: std_values_eval)

lemma float64_one: "float64 1 = 1"
  by code_simp

lemma float64_mono: "x \<le> y \<Longrightarrow> float64 x \<le> float64 y"
  by (simp add: float64_def round_to_mono)

lemma float32_mono: "x \<le> y \<Longrightarrow> float32 x \<le> float32 y"
  by (simp add: float32_def round_to_mono)

lemma float64_unit_range:
  assumes "0 \<le> x" "x \<le> 1"
  shows "0 \<le> float64 x" "float64 x \<le> 1"
proof -
  show "0 \<le> float64 x" using assms(1) by (simp add: float64_def round_to_nonneg)
  show "float64 x \<le> 1" using float64_mono [OF assms(2)] by (simp add: float64_one)
qed

lemma float64_error: "\<bar>float64 x - x\<bar> \<le> \<bar>x\<bar> / 2 ^ 53"
  using round_to_error [of 53 x] by (simp add: float64_def power_int_def power_one_over)

lemma float32_error: "\<bar>float32 x - x\<bar> \<le> \<bar>x\<bar> / 2 ^ 24"
  using round_to_error [of 24 x] by (simp add: float32_def power_int_def power_one_over)

lemma scaled_nat_range:
  assumes "n \<le> 255"
  shows "0 \<le> f64_div (rat_of_nat n) 255 \<and> f64_div (rat_of_nat n) 255 \<le> 1"
proof -
  have "rat_of_nat n \<le> rat_of_nat 255" using assms by (simp only: of_nat_le_iff)
  then have "0 \<le> rat_of_nat n / 255" "rat_of_nat n / 255 \<le> 1" by simp_all
  from float64_unit_range [OF this] show ?thesis by (simp add: f64_div_def)
qed

lemma scaled_sample_range:
  "0 \<le> f64_div (rat_of_nat (unat (x::8 word))) 255 \<and> f64_div (rat_of_nat (unat x)) 255 \<le> 1"
proof (rule scaled_nat_range)
  have "unat x < 2 ^ LENGTH(8)" by (rule unsigned_less)
  then show "unat x \<le> 255" by simp
qed

lemma normalised_mono:
  assumes "c < 3" "x \<le> y"
  shows "normalised c x \<le> normalised c y"
proof -
  have s: "0 \<le> std_values ! c" using std_values_range [OF assms(1)] by simp
  have "x - mean_values ! c \<le> y - mean_values ! c" using assms(2) by simp
  then have "f64_sub x (mean_values ! c) \<le> f64_sub y (mean_values ! c)"
    unfolding f64_sub_def by (rule float64_mono)
  then have "f64_sub x (mean_values ! c) / std_values ! c \<le> f64_sub y (mean_values ! c) / std_values ! c"
    using s by (rule divide_right_mono)
  then have "f64_div (f64_sub x (mean_values ! c)) (std_values ! c)
      \<le> f64_div (f64_sub y (mean_values ! c)) (std_values ! c)"
    unfolding f64_div_def by (rule float64_mono)
  then show ?thesis unfolding normalised_def by (rule float32_mono)
qed

lemma normalised_extremes:
  "normalised 0 0 = - (8883133 / 4194304)" "normalised 1 0 = - (8538405 / 4194304)"
  "normalised 2 0 = - (15136777 / 8388608)" "normalised 0 1 = 9432605 / 4194304"
  "normalised 1 1 = 10186167 / 4194304" "normalised 2 1 = 11072963 / 4194304"
  by code_simp+

lemma normalised_bounds:
  assumes "c < 3"
  shows "- (212 / 100) \<le> normalised c 0" "normalised c 1 \<le> 26400002 / 10000000"
  using channel_cases [OF assms]
  by (auto simp add: normalised_extremes normalised_extremes [unfolded One_nat_def])

lemma abs_scaled_error:
  assumes "\<bar>y\<bar> \<le> b" "\<bar>z - y\<bar> \<le> \<bar>y\<bar> / k" "0 < (k::rat)"
  shows "\<bar>z - y\<bar> \<le> b / k"
proof -
  have "\<bar>y\<bar> / k \<le> b / k" using assms(1,3) by (simp add: divide_right_mono)
  with assms(2) show ?thesis by linarith
qed

lemma abs_bound_add:
  assumes "\<bar>a - b\<bar> \<le> e" "\<bar>b\<bar> \<le> m" "m + e \<le> (k::rat)"
  shows "\<bar>a\<bar> \<le> k"
  using assms by linarith

lemma denormalised_error:
  assumes "c < 3" "0 \<le> x" "x \<le> 1"
  shows "\<bar>denormalised c (normalised c (float64 x)) - x\<bar> \<le> 2 / 10 ^ 7"
proof -
  define M where "M = mean_values ! c"
  define S where "S = std_values ! c"
  have M: "0 < M" "M < 1" using mean_values_range [OF assms(1)] by (simp_all add: M_def)
  have S: "1 / 5 \<le> S" "S \<le> 1 / 4" using std_values_range [OF assms(1)] by (simp_all add: S_def)
  define s where "s = float64 x"
  define t where "t = s - M"
  define d where "d = float64 t"
  define r where "r = d / S"
  define q where "q = float64 r"
  define z where "z = float32 q"
  have z_eq: "normalised c (float64 x) = z"
    by (simp add: normalised_def f64_sub_def f64_div_def z_def q_def r_def d_def t_def s_def
        M_def S_def)
  have s_rng: "0 \<le> s" "s \<le> 1"
    using float64_unit_range [OF assms(2,3)] by (simp_all add: s_def)
  have "\<bar>x\<bar> \<le> 1" using assms(2,3) by simp
  from abs_scaled_error [OF this float64_error [of x]]
  have e1: "\<bar>s - x\<bar> \<le> 1 / 2 ^ 53" by (simp add: s_def)
  have t1: "\<bar>t\<bar> \<le> 1" using s_rng M unfolding t_def by linarith
  from abs_scaled_error [OF t1 float64_error [of t]]
  have e2: "\<bar>d - t\<bar> \<le> 1 / 2 ^ 53" by (simp add: d_def)
  have d1: "\<bar>d\<bar> \<le> 2" by (rule abs_bound_add [OF e2 t1]) simp
  have r1: "\<bar>r\<bar> \<le> 10"
  proof -
    have "\<bar>r\<bar> = \<bar>d\<bar> / S" using S by (simp add: r_def)
    also have "\<dots> \<le> 2 / (1 / 5)" using d1 S by (intro frac_le) simp_all
    finally show ?thesis by simp
  qed
  from abs_scaled_error [OF r1 float64_error [of r]]
  have e3: "\<bar>q - r\<bar> \<le> 10 / 2 ^ 53" by (simp add: q_def)
  have q1: "\<bar>q\<bar> \<le> 11" by (rule abs_bound_add [OF e3 r1]) simp
  from abs_scaled_error [OF q1 float32_error [of q]]
  have e4: "\<bar>z - q\<bar> \<le> 11 / 2 ^ 24" by (simp add: z_def)
  have b1: "\<bar>S * (z - q)\<bar> \<le> 1 / 4 * (11 / 2 ^ 24)"
    unfolding abs_mult using S e4 by (intro mult_mono) simp_all
  have b2: "\<bar>S * (q - r)\<bar> \<le> 1 / 4 * (10 / 2 ^ 53)"
    unfolding abs_mult using S e3 by (intro mult_mono) simp_all
  have "S * r = d" using S by (simp add: r_def)
  then have id: "z * S + M - x = S * (z - q) + S * (q - r) + (d - t) + (s - x)"
    by (simp add: t_def algebra_simps)
  have "\<bar>z * S + M - x\<bar> \<le> \<bar>S * (z - q)\<bar> + \<bar>S * (q - r)\<bar> + \<bar>d - t\<bar> + \<bar>s - x\<bar>"
    unfolding id by linarith
  also have "\<dots> \<le> 1 / 4 * (11 / 2 ^ 24) + 1 / 4 * (10 / 2 ^ 53) + 1 / 2 ^ 53 + 1 / 2 ^ 53"
    using b1 b2 e2 e1 by linarith
  also have "\<dots> \<le> 2 / 10 ^ 7" by simp
  finally show ?thesis
    by (simp add: denormalised_def z_eq M_def S_def)
qed

subsection \<open>Worked examples\<close>

lemma resized_2x3: "resized_size 2 3 = Inr (448, 672)"
proof -
  have "py_round 448 = 448" by (rule py_round_of_int [of 448, simplified])
  then show ?thesis by (simp add: resized_size_def py_truediv_def resized_sq_size_val)
qed

lemma smart_resize_white_example:
  "\<exists>a. smart_resize nearest white_2x3 = Inr a \<and> item a [224, 224, 2] = 255"
  by (simp add: smart_resize_def Let_def np_array_def white_2x3_def resized_2x3 cv_resize_def
      pad_to_square_def resized_sq_size_val np_pad_def in_core_def nearest_def full_255_def)

lemma smart_resize_grey_example:
  "\<exists>a. smart_resize nearest grey_2x3 = Inr a \<and> item a [224, 224] = 110"
  by (simp add: smart_resize_def Let_def np_array_def grey_2x3_def resized_2x3 cv_resize_def
      pad_to_square_def resized_sq_size_val np_pad_def in_core_def nearest_def flat_110_def)

lemma encode_image_white_example:
  "\<exists>out. encode_image nearest (PILImage white_2x3) = Inr out \<and>
     item out [0, 2, 0, 0] = normalised 2 1"
proof -
  have b: "bands (im_mode white_2x3) = 3" and r: "resizable white_2x3"
    by (simp_all add: white_2x3_def resizable_def)
  from encode_image_rgb_ok [OF b r, of nearest]
  obtain a and s :: "rat ndarray" and out where a: "smart_resize nearest white_2x3 = Inr a"
    and s: "\<forall>i j c. item s [i, j, c] = f64_div (of_nat (unat (item a [224 + i, 224 + j, c]))) 255"
    and out: "encode_image nearest (PILImage white_2x3) = Inr out"
    and v: "\<forall>c i j. c < 3 \<longrightarrow> i < 224 \<longrightarrow> j < 224 \<longrightarrow>
              item out [0, c, i, j] =
                float32 (f64_div (f64_sub (item s [i, j, c]) (mean_values ! c)) (std_values ! c))"
    by blast
  from smart_resize_white_example a have "item a [224, 224, 2] = 255" by auto
  with s [rule_format, of 0 0 2] have "item s [0, 0, 2] = 1"
    by (simp add: f64_div_def float64_one)
  with v [rule_format, of 2 0 0] have "item out [0, 2, 0, 0] = normalised 2 1"
    by (simp add: normalised_def)
  with out show ?thesis by blast
qed

lemma normalised_110:
  "normalised 0 (f64_div 110 255) = - (15715621 / 67108864)"
  "normalised 1 (f64_div 110 255) = - (14756431 / 134217728)"
  "normalised 2 (f64_div 110 255) = 15135315 / 134217728"
  by code_simp+

lemma denormalised_f64_110:
  "denormalised_f64 0 (- (15715621 / 67108864)) = 971364629051605 / 2251799813685248"
  "denormalised_f64 1 (- (14756431 / 134217728)) = 7770917000469021 / 18014398509481984"
  "denormalised_f64 2 (15135315 / 134217728) = 3885458501509579 / 9007199254740992"
  by code_simp+

lemma denormalised_110:
  "denormalised 0 (- (15715621 / 67108864)) =
     1042994828566953696870607 / 2417851639229258349412352"
  "denormalised 1 (- (14756431 / 134217728)) =
     2085989648559053854939561 / 4835703278458516698824704"
  "denormalised 2 (15135315 / 134217728) =
     2085989649243601057493111 / 4835703278458516698824704"
  by (simp_all add: denormalised_def mean_values_eval std_values_eval)

lemma encode_image_grey_example:
  "\<exists>out. encode_image nearest (PILImage grey_2x3) = Inr out \<and>
     (\<forall>c < 3. item out [0, c, 0, 0] = normalised c (f64_div 110 255))"
proof -
  have b: "bands (im_mode grey_2x3) = 1" and r: "resizable grey_2x3"
    by (simp_all add: grey_2x3_def resizable_def)
  from encode_image_grey_ok [OF b r, of nearest]
  obtain a and s :: "rat ndarray" and out where a: "smart_resize nearest grey_2x3 = Inr a"
    and s: "\<forall>i j c. item s [i, j, c] = f64_div (of_nat (unat (item a [224 + i, 224 + j]))) 255"
    and out: "encode_image nearest (PILImage grey_2x3) = Inr out"
    and v: "\<forall>c i j. c < 3 \<longrightarrow> i < 224 \<longrightarrow> j < 224 \<longrightarrow>
              item out [0, c, i, j] =
                float32 (f64_div (f64_sub (item s [i, j, c]) (mean_values ! c)) (std_values ! c))"
    by blast
  from smart_resize_grey_example a have "item a [224, 224] = 110" by auto
  with s have "item s [0, 0, c] = f64_div 110 255" for c
    by simp
  with v have "item out [0, c, 0, 0] = normalised c (f64_div 110 255)" if "c < 3" for c
    using that by (simp add: normalised_def)
  with out show ?thesis by blast
qed

section \<open>The claims\<close>

text \<open>
  C1. Claim: for every decoded image with height and width at least 1 and one or three
  channels, \<^verbatim>\<open>encode_image\<close> returns a tensor of shape (1, 3, 224, 224). The code does so
  when the longer side is less than 1344 times the shorter one (lemma
  \<open>encode_image_shape\<close>). For a colour image one row high and 1344 columns wide the
  shorter side rounds to 0, \<^verbatim>\<open>cv.resize\<close> rejects the size and \<^verbatim>\<open>encode_image\<close> raises
  \<^verbatim>\<open>cv2.error\<close> instead of returning a tensor, whatever the interpolation.
\<close>

theorem encode_image_wide_image_raises:
  "encode_image interp (PILImage rgb_1x1344) = Inl CvError"
proof -
  have "smart_resize interp rgb_1x1344 = Inl CvError"
    by (rule smart_resize_cv_error) (simp_all add: rgb_1x1344_def)
  then show ?thesis by (rule scaled_image_error(2))
qed

text \<open>
  C2. For a height \<open>h\<close> and a width \<open>w\<close> of at least 1, the side of the square is
  224 + 2 * 224 = 672; if \<open>h > w\<close> the new height is 672 and the new width is
  \<open>round (672 * w / h)\<close>, otherwise the new width is 672 and the new height is
  \<open>round (672 * h / w)\<close>.
\<close>

theorem resized_size_ratio:
  assumes "1 \<le> h" "1 \<le> w"
  shows "resized_sq_size = 672 \<and>
         (w < h \<longrightarrow> resized_size h w = Inr (672, py_round (of_int (672 * w) / of_int h))) \<and>
         (h \<le> w \<longrightarrow> resized_size h w = Inr (py_round (of_int (672 * h) / of_int w), 672))"
  using assms resized_size_gt [of w h] resized_size_le [of h w]
  by (simp add: resized_sq_size_val)


theorem resized_size_ratio_witness:
  "(1::int) \<le> 1 \<and> (1::int) \<le> 1000 \<and> resized_size 1 1000 = Inr (1, 672) \<and>
   resized_size 1000 1 = Inr (672, 1) \<and> resized_size 300 400 = Inr (504, 672)"
proof -
  note r = resized_size_ratio [THEN conjunct2]
  have e: "py_round (84 / 125) = 1" "py_round 504 = 504" by code_simp+
  from r [of 1 1000] r [of 1000 1] r [of 300 400] show ?thesis
    by (simp add: e)
qed

text \<open>
  C3. A resized image of \<open>nh\<close> rows and \<open>nw\<close> columns, with or without a channel axis,
  is padded to 672 by 672: each residual \<open>672 - n\<close> is split into \<open>(672 - n) div 2\<close>
  leading and \<open>672 - n - (672 - n) div 2\<close> trailing positions, every padded sample is 0,
  the samples of the image are kept at their shifted place, and the channel axis keeps
  its length and its indices.
\<close>

theorem pad_to_square_split:
  assumes "shape r = nh # nw # rest" "length rest \<le> 1" "nh \<le> 672" "nw \<le> 672"
  shows "\<exists>p. pad_to_square (int nh) (int nw) r = Inr p \<and>
           shape p = ((672 - nh) div 2 + nh + (672 - nh - (672 - nh) div 2)) #
                     ((672 - nw) div 2 + nw + (672 - nw - (672 - nw) div 2)) # rest \<and>
           shape p = 672 # 672 # rest \<and>
           (\<forall>i j ks. list_all2 (<) ks rest \<longrightarrow>
              item p (i # j # ks) =
                (if (672 - nh) div 2 \<le> i \<and> i < (672 - nh) div 2 + nh \<and>
                    (672 - nw) div 2 \<le> j \<and> j < (672 - nw) div 2 + nw
                 then item r ((i - (672 - nh) div 2) # (j - (672 - nw) div 2) # ks)
                 else 0))"
proof (cases rest)
  case Nil
  with assms(1) have "shape r = [nh, nw]" by simp
  from pad_to_square_2d [OF this assms(3,4)] Nil assms(3,4) show ?thesis
    by auto
next
  case (Cons c cs)
  with assms(2) have rest: "rest = [c]" by simp
  with assms(1) have "shape r = [nh, nw, c]" by simp
  from pad_to_square_3d [OF this assms(3,4)]
  obtain p where p: "pad_to_square (int nh) (int nw) r = Inr p" "shape p = [672, 672, c]"
    "\<forall>i j k. k < c \<longrightarrow> item p [i, j, k] =
                (if (672 - nh) div 2 \<le> i \<and> i < (672 - nh) div 2 + nh \<and>
                    (672 - nw) div 2 \<le> j \<and> j < (672 - nw) div 2 + nw
                 then item r [i - (672 - nh) div 2, j - (672 - nw) div 2, k] else 0)"
    by blast
  have "item p (i # j # ks) =
                (if (672 - nh) div 2 \<le> i \<and> i < (672 - nh) div 2 + nh \<and>
                    (672 - nw) div 2 \<le> j \<and> j < (672 - nw) div 2 + nw
                 then item r ((i - (672 - nh) div 2) # (j - (672 - nw) div 2) # ks)
                 else 0)" if "list_all2 (<) ks rest" for i j ks
  proof -
    from that rest obtain k where "ks = [k]" "k < c"
      by (auto simp add: list_all2_Cons2)
    with p(3) show ?thesis by simp
  qed
  with p(1,2) rest assms(3,4) show ?thesis by auto
qed


theorem pad_to_square_split_witness:
  "shape strip_447 = 447 # 672 # [3] \<and> length [3::nat] \<le> 1 \<and> (447::nat) \<le> 672 \<and> (672::nat) \<le> 672 \<and>
   (\<exists>p. pad_to_square 447 672 strip_447 = Inr p \<and> shape p = [672, 672, 3] \<and>
        item p [111, 5, 2] = 0 \<and> item p [112, 5, 2] = 7 \<and>
        item p [558, 5, 2] = 7 \<and> item p [559, 5, 2] = 0)"
proof -
  have h: "shape strip_447 = 447 # 672 # [3]" "length [3::nat] \<le> 1" "(447::nat) \<le> 672" "(672::nat) \<le> 672"
    by (simp_all add: strip_447_def)
  from pad_to_square_split [OF h]
  obtain p where p: "pad_to_square (int 447) (int 672) strip_447 = Inr p" "shape p = 672 # 672 # [3]"
    "\<forall>i j ks. list_all2 (<) ks [3] \<longrightarrow>
              item p (i # j # ks) =
                (if (672 - 447) div 2 \<le> i \<and> i < (672 - 447) div 2 + 447 \<and>
                    (672 - 672) div 2 \<le> j \<and> j < (672 - 672) div 2 + 672
                 then item strip_447 ((i - (672 - 447) div 2) # (j - (672 - 672) div 2) # ks)
                 else 0)"
    by blast
  have "item p [111, 5, 2] = 0" "item p [112, 5, 2] = 7" "item p [558, 5, 2] = 7" "item p [559, 5, 2] = 0"
    using p(3) [rule_format, of "[2]" 111 5] p(3) [rule_format, of "[2]" 112 5]
      p(3) [rule_format, of "[2]" 558 5] p(3) [rule_format, of "[2]" 559 5]
    by (simp_all add: strip_447_def)
  with p(1,2) h show ?thesis by auto
qed

text \<open>
  C9. The rounding of the shorter side is round-half-to-even: when the quotient
  \<open>672 * a / b\<close> of the shorter side \<open>a\<close> and the longer side \<open>b\<close> is exactly
  \<open>k + 1/2\<close>, the resized shorter side is the even one of \<open>k\<close> and \<open>k + 1\<close>, in both
  branches of the resize.
\<close>

theorem resized_size_ties_to_even:
  assumes "1 \<le> a" "a < b" "1344 * a = (2 * k + 1) * b"
  shows "resized_size b a = Inr (672, if even k then k else k + 1) \<and>
         resized_size a b = Inr (if even k then k else k + 1, 672)"
proof -
  have b: "rat_of_int b \<noteq> 0" using assms by simp
  have "rat_of_int (1344 * a) = rat_of_int ((2 * k + 1) * b)"
    using assms(3) by simp
  then have "2 * rat_of_int (672 * a) = (2 * rat_of_int k + 1) * rat_of_int b"
    by simp
  then have q: "rat_of_int (672 * a) / rat_of_int b = rat_of_int k + 1 / 2"
    using b by (simp add: field_simps)
  have "0 \<le> a" using assms by simp
  from resized_size_gt [OF this assms(2)] resized_size_le [of a b] assms
  show ?thesis
    unfolding q py_round_half by simp
qed


theorem resized_size_ties_to_even_witness:
  "(1::int) \<le> 5 \<and> (5::int) < 1344 \<and> (1344::int) * 5 = (2 * 2 + 1) * 1344 \<and>
   resized_size 1344 5 = Inr (672, 2) \<and> resized_size 5 1344 = Inr (2, 672) \<and>
   resized_size 1344 3 = Inr (672, 2) \<and> resized_size 1344 1 = Inr (672, 0)"
  using resized_size_ties_to_even [of 5 1344 2] resized_size_ties_to_even [of 3 1344 1]
    resized_size_ties_to_even [of 1 1344 0]
  by simp

text \<open>
  C4. Claim: for a single-channel image the de-normalised value
  \<open>output[c] * NORM_STD[c] + NORM_MEAN[c]\<close> is equal across the three channels at every
  pixel. The tensor is float32 and each channel is rounded on its own: for the grey image
  of sample 110 the three output samples de-normalise to three different values, whether
  the de-normalisation is computed exactly or in float64 (0.43137255059, 0.43137254882
  and 0.43137254896, for 110 / 255 = 0.43137254902).
\<close>

theorem grey_denormalised_values_differ:
  "item (projr (encode_image nearest (PILImage grey_2x3))) [0, 0, 0, 0] = - (15715621 / 67108864) \<and>
   item (projr (encode_image nearest (PILImage grey_2x3))) [0, 1, 0, 0] = - (14756431 / 134217728) \<and>
   item (projr (encode_image nearest (PILImage grey_2x3))) [0, 2, 0, 0] = 15135315 / 134217728 \<and>
   denormalised 0 (item (projr (encode_image nearest (PILImage grey_2x3))) [0, 0, 0, 0]) \<noteq>
   denormalised 1 (item (projr (encode_image nearest (PILImage grey_2x3))) [0, 1, 0, 0]) \<and>
   denormalised 1 (item (projr (encode_image nearest (PILImage grey_2x3))) [0, 1, 0, 0]) \<noteq>
   denormalised 2 (item (projr (encode_image nearest (PILImage grey_2x3))) [0, 2, 0, 0]) \<and>
   denormalised_f64 0 (item (projr (encode_image nearest (PILImage grey_2x3))) [0, 0, 0, 0]) \<noteq>
   denormalised_f64 1 (item (projr (encode_image nearest (PILImage grey_2x3))) [0, 1, 0, 0]) \<and>
   denormalised_f64 1 (item (projr (encode_image nearest (PILImage grey_2x3))) [0, 1, 0, 0]) \<noteq>
   denormalised_f64 2 (item (projr (encode_image nearest (PILImage grey_2x3))) [0, 2, 0, 0])"
proof -
  from encode_image_grey_example
  obtain out where out: "encode_image nearest (PILImage grey_2x3) = Inr out"
    and v: "\<forall>c < 3. item out [0, c, 0, 0] = normalised c (f64_div 110 255)" by blast
  have c3: "(0::nat) < 3" "(1::nat) < 3" "(2::nat) < 3" by simp_all
  have o0: "item out [0, 0, 0, 0] = - (15715621 / 67108864)"
    using v [rule_format, OF c3(1)] by (simp only: normalised_110)
  have o1: "item out [0, 1, 0, 0] = - (14756431 / 134217728)"
    using v [rule_format, OF c3(2)] by (simp only: normalised_110)
  have o2: "item out [0, 2, 0, 0] = 15135315 / 134217728"
    using v [rule_format, OF c3(3)] by (simp only: normalised_110)
  show ?thesis
    unfolding out sum.sel o0 o1 o2 denormalised_110 denormalised_f64_110 by simp
qed

text \<open>
  C4, as the code behaves: for a single-channel image (mode \<open>L\<close>) for which
  \<^verbatim>\<open>encode_image\<close> returns a tensor, the array before the normalisation has the shape
  (224, 224, 3) and its three channels are identical copies of the cropped grey plane
  divided by 255.0, so the replication comes after the crop and the division and before
  the normalisation; every output sample is that value normalised with the statistics of
  its channel and cast to float32. De-normalised, an output sample is within
  \<open>2 / 10 ^ 7\<close> of the grey value \<open>sample / 255\<close>, and the three channels are within
  \<open>4 / 10 ^ 7\<close> of one another.
\<close>

theorem grey_replicated_before_normalisation:
  assumes "im_mode p = L" "encode_image interp (PILImage p) = Inr out"
  shows "\<exists>a s. smart_resize interp p = Inr a \<and> shape a = [672, 672] \<and>
           scaled_image interp (PILImage p) = Inr s \<and> shape s = [224, 224, 3] \<and>
           shape out = [1, 3, 224, 224] \<and>
           (\<forall>i j c c'. i < 224 \<longrightarrow> j < 224 \<longrightarrow> c < 3 \<longrightarrow> c' < 3 \<longrightarrow>
              item s [i, j, c] = f64_div (of_nat (unat (item a [224 + i, 224 + j]))) 255 \<and>
              item s [i, j, c] = item s [i, j, c'] \<and>
              item out [0, c, i, j] = normalised c (item s [i, j, c]) \<and>
              \<bar>denormalised c (item out [0, c, i, j]) -
                 of_nat (unat (item a [224 + i, 224 + j])) / 255\<bar> \<le> 2 / 10 ^ 7 \<and>
              \<bar>denormalised c (item out [0, c, i, j]) -
                 denormalised c' (item out [0, c', i, j])\<bar> \<le> 4 / 10 ^ 7)"
proof -
  have b: "bands (im_mode p) = 1" using assms(1) by simp
  have r: "resizable p" using assms(2) by (rule encode_image_Inr_D(1))
  from encode_image_grey_ok [OF b r, of interp]
  obtain a s out' where a: "smart_resize interp p = Inr a" "shape a = [672, 672]"
    and s: "scaled_image interp (PILImage p) = Inr s" "shape s = [224, 224, 3]"
      "\<forall>i j c. item s [i, j, c] = f64_div (of_nat (unat (item a [224 + i, 224 + j]))) 255"
    and o: "encode_image interp (PILImage p) = Inr out'" "shape out' = [1, 3, 224, 224]"
      "\<forall>c i j. c < 3 \<longrightarrow> i < 224 \<longrightarrow> j < 224 \<longrightarrow>
              item out' [0, c, i, j] =
                float32 (f64_div (f64_sub (item s [i, j, c]) (mean_values ! c)) (std_values ! c))"
    by blast
  from o(1) assms(2) have eq: "out' = out" by simp
  have v: "item out [0, c, i, j] = normalised c (item s [i, j, c])"
    if "c < 3" "i < 224" "j < 224" for c i j
    using o(3) that unfolding eq normalised_def by blast
  have g: "\<bar>denormalised c (item out [0, c, i, j]) -
             of_nat (unat (item a [224 + i, 224 + j])) / 255\<bar> \<le> 2 / 10 ^ 7"
    if "c < 3" "i < 224" "j < 224" for c i j
  proof -
    define n where "n = unat (item a [224 + i, 224 + j])"
    have "n < 2 ^ LENGTH(8)" unfolding n_def by (rule unsigned_less)
    then have "rat_of_nat n \<le> rat_of_nat 255" by (simp only: of_nat_le_iff) simp
    then have x: "0 \<le> rat_of_nat n / 255" "rat_of_nat n / 255 \<le> 1" by simp_all
    have "item s [i, j, c] = float64 (rat_of_nat n / 255)"
      using s(3) by (simp add: f64_div_def n_def)
    with v [OF that] denormalised_error [OF that(1) x] show ?thesis
      by (simp only: n_def)
  qed
  have "item s [i, j, c] = f64_div (of_nat (unat (item a [224 + i, 224 + j]))) 255 \<and>
        item s [i, j, c] = item s [i, j, c'] \<and>
        item out [0, c, i, j] = normalised c (item s [i, j, c]) \<and>
        \<bar>denormalised c (item out [0, c, i, j]) -
           of_nat (unat (item a [224 + i, 224 + j])) / 255\<bar> \<le> 2 / 10 ^ 7 \<and>
        \<bar>denormalised c (item out [0, c, i, j]) -
           denormalised c' (item out [0, c', i, j])\<bar> \<le> 4 / 10 ^ 7"
    if h: "i < 224" "j < 224" "c < 3" "c' < 3" for i j c c'
  proof -
    have 1: "item s [i, j, c] = f64_div (of_nat (unat (item a [224 + i, 224 + j]))) 255"
      using s(3) by blast
    have 2: "item s [i, j, c] = item s [i, j, c']"
      by (simp only: s(3) [rule_format])
    have 3: "item out [0, c, i, j] = normalised c (item s [i, j, c])"
      using h by (intro v)
    note 4 = g [OF h(3) h(1) h(2)]
    note 5 = g [OF h(4) h(1) h(2)]
    have "\<bar>denormalised c (item out [0, c, i, j]) -
           denormalised c' (item out [0, c', i, j])\<bar> \<le> 2 / 10 ^ 7 + 2 / 10 ^ 7"
      using 4 5 by linarith
    then have 6: "\<bar>denormalised c (item out [0, c, i, j]) -
           denormalised c' (item out [0, c', i, j])\<bar> \<le> 4 / 10 ^ 7" by simp
    from 1 2 3 4 6 show ?thesis by (intro conjI)
  qed
  with a s(1,2) o(2) eq show ?thesis by blast
qed

theorem grey_replicated_before_normalisation_witness:
  "im_mode grey_2x3 = L \<and>
   (\<exists>out. encode_image nearest (PILImage grey_2x3) = Inr out \<and>
      (\<exists>s. scaled_image nearest (PILImage grey_2x3) = Inr s \<and> shape s = [224, 224, 3] \<and>
           item s [0, 0, 0] = item s [0, 0, 2]) \<and>
      shape out = [1, 3, 224, 224] \<and>
      item out [0, 0, 0, 0] = - (15715621 / 67108864) \<and>
      \<bar>denormalised 0 (item out [0, 0, 0, 0]) - denormalised 2 (item out [0, 2, 0, 0])\<bar>
        \<le> 4 / 10 ^ 7)"
proof -
  have m: "im_mode grey_2x3 = L" by (simp add: grey_2x3_def)
  from encode_image_grey_example
  obtain out where out: "encode_image nearest (PILImage grey_2x3) = Inr out"
    and v: "\<forall>c < 3. item out [0, c, 0, 0] = normalised c (f64_div 110 255)" by blast
  from grey_replicated_before_normalisation [OF m out]
  obtain a :: "8 word ndarray" and s :: "rat ndarray"
    where s: "scaled_image nearest (PILImage grey_2x3) = Inr s" "shape s = [224, 224, 3]"
      "shape out = [1, 3, 224, 224]"
    and q: "\<forall>i j c c'. i < 224 \<longrightarrow> j < 224 \<longrightarrow> c < 3 \<longrightarrow> c' < 3 \<longrightarrow>
              item s [i, j, c] = f64_div (of_nat (unat (item a [224 + i, 224 + j]))) 255 \<and>
              item s [i, j, c] = item s [i, j, c'] \<and>
              item out [0, c, i, j] = normalised c (item s [i, j, c]) \<and>
              \<bar>denormalised c (item out [0, c, i, j]) -
                 of_nat (unat (item a [224 + i, 224 + j])) / 255\<bar> \<le> 2 / 10 ^ 7 \<and>
              \<bar>denormalised c (item out [0, c, i, j]) -
                 denormalised c' (item out [0, c', i, j])\<bar> \<le> 4 / 10 ^ 7"
    by blast
  have h: "(0::nat) < 224" "(0::nat) < 3" "(2::nat) < 3" by simp_all
  note k = q [rule_format, OF h(1) h(1) h(2) h(3)]
  have "item s [0, 0, 0] = item s [0, 0, 2]" using k by blast
  moreover have "\<bar>denormalised 0 (item out [0, 0, 0, 0]) - denormalised 2 (item out [0, 2, 0, 0])\<bar>
        \<le> 4 / 10 ^ 7" using k by blast
  moreover have "item out [0, 0, 0, 0] = - (15715621 / 67108864)"
    using v [rule_format, OF h(2)] by (simp only: normalised_110)
  ultimately show ?thesis using m out s by blast
qed

text \<open>
  C5. An argument that is not a PIL image is rejected by the type check of
  \<^verbatim>\<open>_assert_pil\<close>, the first statement of \<^verbatim>\<open>encode_image\<close>, before anything is computed
  from it. The error the code raises is Python's \<^verbatim>\<open>AssertionError\<close>; it is what the
  specification calls the input type error.
\<close>

theorem encode_image_type_check:
  assumes "\<not> isinstance_Image obj"
  shows "assert_pil obj = Inl AssertionError \<and>
         scaled_image interp obj = Inl AssertionError \<and>
         encode_image interp obj = Inl AssertionError"
  using assms
  by (cases obj) (simp_all add: assert_pil_def scaled_image_def encode_image_def)

theorem encode_image_type_check_witness:
  "\<not> isinstance_Image (PyBytes [1, 2, 3]) \<and>
   encode_image nearest (PyBytes [1, 2, 3]) = Inl AssertionError \<and>
   \<not> isinstance_Image (NdArray strip_447) \<and>
   encode_image nearest (NdArray strip_447) = Inl AssertionError"
  using encode_image_type_check [of "PyBytes [1, 2, 3]" nearest]
    encode_image_type_check [of "NdArray strip_447" nearest]
  by simp

text \<open>
  C6. Claim: a degenerate (zero-size) image is caught by a guard of \<^verbatim>\<open>encode_image\<close>
  that raises a shape error. The code has no such guard. A 0 by 0 image fails in the
  arithmetic of the resize ratio, with \<^verbatim>\<open>ZeroDivisionError\<close>:
\<close>

theorem zero_size_image_unguarded: "encode_image nearest (PILImage rgb_0x0) = Inl ZeroDivisionError"
proof -
  have "smart_resize nearest rgb_0x0 = Inl ZeroDivisionError"
    by (rule smart_resize_zero_size) (simp_all add: rgb_0x0_def)
  then show ?thesis by (rule scaled_image_error(2))
qed

text \<open>
  C6, as the code behaves: for every image of height 0 or width 0, \<^verbatim>\<open>encode_image\<close>
  returns no tensor; it raises \<^verbatim>\<open>ZeroDivisionError\<close> when both are 0 and otherwise the
  \<^verbatim>\<open>cv2.error\<close> of \<^verbatim>\<open>cv.resize\<close>.
\<close>

theorem zero_size_image_raises:
  assumes "im_height p = 0 \<or> im_width p = 0"
  shows "encode_image interp (PILImage p) =
           (if im_height p = 0 \<and> im_width p = 0 then Inl ZeroDivisionError else Inl CvError)"
proof (cases "im_height p = 0 \<and> im_width p = 0")
  case True
  then have "smart_resize interp p = Inl ZeroDivisionError"
    by (simp add: smart_resize_zero_size)
  from scaled_image_error(2) [OF this] True show ?thesis by simp
next
  case False
  with assms have "smart_resize interp p = Inl CvError"
    by (intro smart_resize_cv_error) auto
  from scaled_image_error(2) [OF this] False show ?thesis by simp
qed

theorem zero_size_image_raises_witness:
  "(im_height rgb_0x5 = 0 \<or> im_width rgb_0x5 = 0) \<and>
   encode_image nearest (PILImage rgb_0x5) = Inl CvError"
  using zero_size_image_raises [of rgb_0x5 nearest]
  by (simp add: rgb_0x5_def)

text \<open>
  C8. Claim: every value of the output tensor lies in the range from
  \<open>(0 - NORM_MEAN[c]) / NORM_STD[c]\<close> to \<open>(1 - NORM_MEAN[c]) / NORM_STD[c]\<close>, inclusive.
  For a white image the sample of channel 2 is 2.6400001049..., the float32 nearest to
  2.64, which is above \<open>(1 - 0.406) / 0.225 = 2.64\<close> and above the same quotient of the
  float64 constants.
\<close>

theorem white_exceeds_exact_bound:
  "item (projr (encode_image nearest (PILImage white_2x3))) [0, 2, 0, 0] = 11072963 / 4194304 \<and>
   (1 - mean_literals ! 2) / std_literals ! 2 = 264 / 100 \<and>
   (1 - mean_literals ! 2) / std_literals ! 2
     < item (projr (encode_image nearest (PILImage white_2x3))) [0, 2, 0, 0] \<and>
   (1 - mean_values ! 2) / std_values ! 2
     < item (projr (encode_image nearest (PILImage white_2x3))) [0, 2, 0, 0]"
proof -
  from encode_image_white_example
  obtain out where "encode_image nearest (PILImage white_2x3) = Inr out"
    "item out [0, 2, 0, 0] = normalised 2 1" by blast
  then have "item (projr (encode_image nearest (PILImage white_2x3))) [0, 2, 0, 0] = 11072963 / 4194304"
    by (simp add: normalised_extremes)
  then show ?thesis
    by (simp add: mean_literals_def std_literals_def mean_values_eval std_values_eval)
qed

text \<open>
  C8, as the code behaves: for every image for which \<^verbatim>\<open>encode_image\<close> returns a tensor,
  every sample after the division by 255.0 and before the normalisation lies in [0, 1],
  and every sample of the tensor lies between the values that the code's arithmetic gives
  to the samples 0 and 255 in its channel (\<open>normalised c 0\<close> and \<open>normalised c 1\<close>), hence
  in [-2.12, 2.6400002]: approximately [-2.12, 2.64], the exact quotients being passed by
  less than one float32 rounding.
\<close>

theorem encode_image_value_range:
  assumes "encode_image interp (PILImage p) = Inr out" "c < 3" "i < 224" "j < 224"
  shows "\<exists>s. scaled_image interp (PILImage p) = Inr s \<and>
           0 \<le> item s [i, j, c] \<and> item s [i, j, c] \<le> 1 \<and>
           item out [0, c, i, j] = normalised c (item s [i, j, c]) \<and>
           normalised c 0 \<le> item out [0, c, i, j] \<and>
           item out [0, c, i, j] \<le> normalised c 1 \<and>
           - (212 / 100) \<le> item out [0, c, i, j] \<and>
           item out [0, c, i, j] \<le> 26400002 / 10000000"
proof -
  have r: "resizable p" using assms(1) by (rule encode_image_Inr_D(1))
  have "bands (im_mode p) = 1 \<or> bands (im_mode p) = 3"
    using assms(1) by (rule encode_image_Inr_D(2))
  then obtain s where s: "scaled_image interp (PILImage p) = Inr s"
      "0 \<le> item s [i, j, c] \<and> item s [i, j, c] \<le> 1"
      "item out [0, c, i, j] = normalised c (item s [i, j, c])"
  proof
    assume b: "bands (im_mode p) = 1"
    from encode_image_grey_ok [OF b r, of interp]
    obtain a :: "8 word ndarray" and s out' where g: "scaled_image interp (PILImage p) = Inr s"
      "\<forall>i j c. item s [i, j, c] = f64_div (of_nat (unat (item a [224 + i, 224 + j]))) 255"
      "encode_image interp (PILImage p) = Inr out'"
      "\<forall>c i j. c < 3 \<longrightarrow> i < 224 \<longrightarrow> j < 224 \<longrightarrow>
              item out' [0, c, i, j] =
                float32 (f64_div (f64_sub (item s [i, j, c]) (mean_values ! c)) (std_values ! c))"
      by blast
    from g(3) assms(1) have "out' = out" by simp
    with g(4) assms(2-4)
    have "item out [0, c, i, j] = normalised c (item s [i, j, c])"
      unfolding normalised_def by blast
    moreover have "0 \<le> item s [i, j, c] \<and> item s [i, j, c] \<le> 1"
      unfolding g(2) [rule_format] by (rule scaled_sample_range)
    ultimately show ?thesis using that g(1) by blast
  next
    assume b: "bands (im_mode p) = 3"
    from encode_image_rgb_ok [OF b r, of interp]
    obtain a :: "8 word ndarray" and s out' where g: "scaled_image interp (PILImage p) = Inr s"
      "\<forall>i j c. item s [i, j, c] = f64_div (of_nat (unat (item a [224 + i, 224 + j, c]))) 255"
      "encode_image interp (PILImage p) = Inr out'"
      "\<forall>c i j. c < 3 \<longrightarrow> i < 224 \<longrightarrow> j < 224 \<longrightarrow>
              item out' [0, c, i, j] =
                float32 (f64_div (f64_sub (item s [i, j, c]) (mean_values ! c)) (std_values ! c))"
      by blast
    from g(3) assms(1) have "out' = out" by simp
    with g(4) assms(2-4)
    have "item out [0, c, i, j] = normalised c (item s [i, j, c])"
      unfolding normalised_def by blast
    moreover have "0 \<le> item s [i, j, c] \<and> item s [i, j, c] \<le> 1"
      unfolding g(2) [rule_format] by (rule scaled_sample_range)
    ultimately show ?thesis using that g(1) by blast
  qed
  have lo: "normalised c 0 \<le> item out [0, c, i, j]"
    unfolding s(3) using s(2) by (intro normalised_mono assms(2)) simp
  have hi: "item out [0, c, i, j] \<le> normalised c 1"
    unfolding s(3) using s(2) by (intro normalised_mono assms(2)) simp
  from lo hi normalised_bounds [OF assms(2)] s show ?thesis
    by (intro exI [of _ s]) linarith
qed

theorem encode_image_value_range_witness:
  "\<exists>out. encode_image nearest (PILImage white_2x3) = Inr out \<and>
      (2::nat) < 3 \<and> (0::nat) < 224 \<and>
      item out [0, 2, 0, 0] = 11072963 / 4194304 \<and>
      normalised 2 0 \<le> item out [0, 2, 0, 0] \<and> item out [0, 2, 0, 0] \<le> normalised 2 1 \<and>
      - (212 / 100) \<le> item out [0, 2, 0, 0] \<and> item out [0, 2, 0, 0] \<le> 26400002 / 10000000"
proof -
  from encode_image_white_example
  obtain out where out: "encode_image nearest (PILImage white_2x3) = Inr out"
    and v: "item out [0, 2, 0, 0] = normalised 2 1" by blast
  have h: "(2::nat) < 3" "(0::nat) < 224" by simp_all
  from encode_image_value_range [OF out h(1) h(2) h(2)] out h v show ?thesis
    by (auto simp add: normalised_extremes)
qed

text \<open>
  C10. Claim: an image with a channel count other than 1 and 3 makes \<^verbatim>\<open>encode_image\<close>
  fail at the final reshape. For a one-pixel RGBA image the error comes earlier: the
  subtraction of \<open>NORM_MEAN\<close> cannot broadcast four channels against three.
\<close>

theorem rgba_fails_before_reshape:
  "encode_image nearest (PILImage rgba_1x1) = Inl (ValueError Broadcast) \<and>
   encode_image nearest (PILImage rgba_1x1) \<noteq> Inl (ValueError Reshape)"
proof -
  have "bands (im_mode rgba_1x1) \<noteq> 1" "bands (im_mode rgba_1x1) \<noteq> 3" "resizable rgba_1x1"
    by (simp_all add: rgba_1x1_def resizable_def)
  from encode_image_other_bands [OF this, of nearest] show ?thesis by auto
qed

text \<open>
  C10, as the code behaves: for every image with two or four channels
  \<^verbatim>\<open>encode_image\<close> never returns a tensor; when the resize succeeds, the array reaches the
  normalisation with all its channels and the subtraction of \<open>NORM_MEAN\<close> raises
  \<^verbatim>\<open>ValueError\<close> (broadcast), before the transposition and the reshape.
\<close>

theorem other_channel_counts_rejected:
  assumes "bands (im_mode p) \<noteq> 1" "bands (im_mode p) \<noteq> 3"
  shows "(\<forall>out. encode_image interp (PILImage p) \<noteq> Inr out) \<and>
         (resizable p \<longrightarrow>
            (\<exists>s. scaled_image interp (PILImage p) = Inr s \<and>
                 shape s = [224, 224, bands (im_mode p)] \<and>
                 np_binop f64_sub s NORM_MEAN = Inl (ValueError Broadcast)) \<and>
            encode_image interp (PILImage p) = Inl (ValueError Broadcast))"
proof -
  have "\<forall>out. encode_image interp (PILImage p) \<noteq> Inr out"
    using encode_image_Inr_D(2) [of interp p] assms by blast
  moreover have "(\<exists>s. scaled_image interp (PILImage p) = Inr s \<and>
                 shape s = [224, 224, bands (im_mode p)] \<and>
                 np_binop f64_sub s NORM_MEAN = Inl (ValueError Broadcast)) \<and>
            encode_image interp (PILImage p) = Inl (ValueError Broadcast)" if "resizable p"
    using encode_image_other_bands [OF assms that, of interp] by auto
  ultimately show ?thesis by blast
qed

theorem other_channel_counts_rejected_witness:
  "bands (im_mode la_2x3) \<noteq> 1 \<and> bands (im_mode la_2x3) \<noteq> 3 \<and> resizable la_2x3 \<and>
   (\<forall>out. encode_image nearest (PILImage la_2x3) \<noteq> Inr out) \<and>
   encode_image nearest (PILImage la_2x3) = Inl (ValueError Broadcast)"
proof -
  have h: "bands (im_mode la_2x3) \<noteq> 1" "bands (im_mode la_2x3) \<noteq> 3"
    by (simp_all add: la_2x3_def)
  have r: "resizable la_2x3" by (simp add: resizable_def la_2x3_def)
  from other_channel_counts_rejected [OF h, of nearest] h r show ?thesis by blast
qed

end
